theory Spec2Isabelle
  imports Main "HOL-Library.Sublist" "HOL-Library.Multiset"
begin

section \<open>Values read from the table\<close>

text \<open>
  Both front ends read the spreadsheet with \<^verbatim>\<open>pd.read_csv\<close> and walk over it with
  \<^verbatim>\<open>df.iterrows()\<close>. A Python \<^verbatim>\<open>str\<close> is modelled as a \<^typ>\<open>string\<close> whose
  characters are read as code points below 256. A cell is what \<^verbatim>\<open>row[col]\<close> yields:
  text, an integer, a boolean or the missing value (an empty field is read as NaN).
  Floating point values other than NaN are not modelled.
\<close>

datatype cell = StrV string | IntV int | BoolV bool | NaN

record dataframe =
  columns :: "string list"
  rows :: "(string \<Rightarrow> cell) list"

datatype error =
    KeyError string
  | ValueError
  | FileNotFoundError
  | NotADirectoryError
  | IsADirectoryError
  | FileExistsError
  | OSError
  | ShutilError
  | EmptyDataError
  | ParserError

text \<open>The subclasses of \<^verbatim>\<open>OSError\<close> that an \<^verbatim>\<open>except OSError\<close> clause catches.\<close>

definition is_OSError :: "error \<Rightarrow> bool" where
  "is_OSError e =
     (e = FileNotFoundError \<or> e = NotADirectoryError \<or> e = IsADirectoryError \<or>
      e = FileExistsError \<or> e = OSError \<or> e = ShutilError)"

fun digits :: "nat \<Rightarrow> string" where
  "digits n =
     (if n < 10 then [''0123456789'' ! n]
      else digits (n div 10) @ [''0123456789'' ! (n mod 10)])"

declare digits.simps [simp del]

text \<open>\<^verbatim>\<open>str(value)\<close> on a cell.\<close>

fun py_str :: "cell \<Rightarrow> string" where
  "py_str (StrV s) = s"
| "py_str (IntV i) = (if i < 0 then CHR ''-'' # digits (nat (- i)) else digits (nat i))"
| "py_str (BoolV b) = (if b then ''True'' else ''False'')"
| "py_str NaN = ''nan''"

text \<open>\<^verbatim>\<open>str.isspace\<close> on the code points below 256, and \<^verbatim>\<open>str.strip()\<close>.\<close>

definition isspace :: "char \<Rightarrow> bool" where
  "isspace c =
     (let n = (of_char c :: nat)
      in (9 \<le> n \<and> n \<le> 13) \<or> (28 \<le> n \<and> n \<le> 32) \<or> n = 133 \<or> n = 160)"

definition py_strip :: "string \<Rightarrow> string" where
  "py_strip s = rev (dropWhile isspace (rev (dropWhile isspace s)))"

text \<open>\<^verbatim>\<open>row[col]\<close>: a label that is not a column of the frame raises \<^verbatim>\<open>KeyError\<close>.\<close>

definition getitem :: "string list \<Rightarrow> (string \<Rightarrow> cell) \<Rightarrow> string \<Rightarrow> error + cell" where
  "getitem cols row col = (if col \<in> set cols then Inr (row col) else Inl (KeyError col))"

section \<open>The file system\<close>

text \<open>
  A tree of directories and regular files, addressed by the list of names that leads from
  the root to an entry, together with the working directory of the process. There are no
  symbolic links, no permissions, no second device and no resource limits. Paths follow
  the POSIX conventions of \<^verbatim>\<open>posixpath\<close>.
\<close>

datatype node = File string | Dir

type_synonym path = "string list"

record fsys =
  nodes :: "path \<Rightarrow> node option"
  cwd :: path

subsection \<open>Path strings\<close>

fun split_sep :: "string \<Rightarrow> string list" where
  "split_sep [] = [[]]"
| "split_sep (c # cs) =
     (if c = CHR ''/'' then [] # split_sep cs
      else (c # hd (split_sep cs)) # tl (split_sep cs))"

definition rstrip_sep :: "string \<Rightarrow> string" where
  "rstrip_sep p = rev (dropWhile (\<lambda>c. c = CHR ''/'') (rev p))"

text \<open>\<^verbatim>\<open>os.path.join(a, b)\<close>.\<close>

definition path_join :: "string \<Rightarrow> string \<Rightarrow> string" where
  "path_join a b =
     (if b \<noteq> [] \<and> hd b = CHR ''/'' then b
      else if a = [] \<or> last a = CHR ''/'' then a @ b
      else a @ ''/'' @ b)"

text \<open>\<^verbatim>\<open>os.path.split(p)\<close>: head and tail around the last slash.\<close>

definition path_split :: "string \<Rightarrow> string \<times> string" where
  "path_split p =
     (let tail = rev (takeWhile (\<lambda>c. c \<noteq> CHR ''/'') (rev p));
          head = take (length p - length tail) p
      in (if head \<noteq> [] \<and> head \<noteq> replicate (length head) (CHR ''/'')
          then rstrip_sep head else head, tail))"

definition basename :: "string \<Rightarrow> string" where
  "basename p = snd (path_split p)"

text \<open>\<^verbatim>\<open>shutil._basename\<close>: the last component, ignoring trailing slashes.\<close>

definition shutil_basename :: "string \<Rightarrow> string" where
  "shutil_basename p = basename (rstrip_sep p)"

definition isabs :: "string \<Rightarrow> bool" where
  "isabs p = (p \<noteq> [] \<and> hd p = CHR ''/'')"

subsection \<open>Resolution\<close>

definition start :: "fsys \<Rightarrow> string \<Rightarrow> path" where
  "start fs p = (if isabs p then [] else cwd fs)"

definition enter :: "path \<Rightarrow> string \<Rightarrow> path" where
  "enter cur c =
     (if c = [] \<or> c = ''.'' then cur else if c = ''..'' then butlast cur else cur @ [c])"

text \<open>
  Follow the components one by one; the entry a component is looked up in has to be a
  directory.
\<close>

fun walk :: "(path \<Rightarrow> node option) \<Rightarrow> path \<Rightarrow> string list \<Rightarrow> error + path" where
  "walk nd cur [] = Inr cur"
| "walk nd cur (c # cs) =
     (case nd cur of
        None \<Rightarrow> Inl FileNotFoundError
      | Some (File _) \<Rightarrow> Inl NotADirectoryError
      | Some Dir \<Rightarrow> walk nd (enter cur c) cs)"

text \<open>\<^verbatim>\<open>os.stat\<close>: the resolved location and the entry found there.\<close>

definition stat :: "fsys \<Rightarrow> string \<Rightarrow> error + path \<times> node" where
  "stat fs p =
     (if CHR 0x00 \<in> set p then Inl ValueError
      else if p = [] then Inl FileNotFoundError
      else case walk (nodes fs) (start fs p) (split_sep p) of
             Inl e \<Rightarrow> Inl e
           | Inr q \<Rightarrow> (case nodes fs q of None \<Rightarrow> Inl FileNotFoundError | Some n \<Rightarrow> Inr (q, n)))"

text \<open>\<^verbatim>\<open>os.path.exists\<close> and \<^verbatim>\<open>os.path.isdir\<close> turn every failure of stat into False.\<close>

definition exists :: "fsys \<Rightarrow> string \<Rightarrow> bool" where
  "exists fs p = (case stat fs p of Inl _ \<Rightarrow> False | Inr _ \<Rightarrow> True)"

definition isdir :: "fsys \<Rightarrow> string \<Rightarrow> bool" where
  "isdir fs p = (case stat fs p of Inr (_, Dir) \<Rightarrow> True | _ \<Rightarrow> False)"

definition samefile :: "fsys \<Rightarrow> string \<Rightarrow> string \<Rightarrow> bool" where
  "samefile fs a b =
     (case stat fs a of
        Inl _ \<Rightarrow> False
      | Inr (q, _) \<Rightarrow> (case stat fs b of Inl _ \<Rightarrow> False | Inr (q', _) \<Rightarrow> q = q'))"

text \<open>\<^verbatim>\<open>os.path.abspath\<close> normalises by the text of the path alone.\<close>

definition abspath :: "fsys \<Rightarrow> string \<Rightarrow> path" where
  "abspath fs p = foldl enter (start fs p) (split_sep p)"

definition destinsrc :: "fsys \<Rightarrow> string \<Rightarrow> string \<Rightarrow> bool" where
  "destinsrc fs src dst = prefix (abspath fs src) (abspath fs dst)"

text \<open>
  The directory that holds the last component of a path, and that component; trailing
  slashes are ignored. The root has the empty name.
\<close>

definition components :: "string \<Rightarrow> string list" where
  "components p = rev (dropWhile (\<lambda>c. c = []) (rev (split_sep p)))"

definition locate :: "fsys \<Rightarrow> string \<Rightarrow> error + path \<times> string" where
  "locate fs p =
     (if CHR 0x00 \<in> set p then Inl ValueError
      else if p = [] then Inl FileNotFoundError
      else if components p = [] then Inr ([], [])
      else case walk (nodes fs) (start fs p) (butlast (components p)) of
             Inl e \<Rightarrow> Inl e
           | Inr par \<Rightarrow>
               (case nodes fs par of
                  None \<Rightarrow> Inl FileNotFoundError
                | Some (File _) \<Rightarrow> Inl NotADirectoryError
                | Some Dir \<Rightarrow> Inr (par, last (components p))))"

definition special :: "string \<Rightarrow> bool" where
  "special c = (c = [] \<or> c = ''.'' \<or> c = ''..'')"

subsection \<open>Operations\<close>

text \<open>An operation returns the file system it leaves behind and the exception it raised.\<close>

type_synonym outcome = "fsys \<times> error option"

definition mkdir :: "fsys \<Rightarrow> string \<Rightarrow> outcome" where
  "mkdir fs p =
     (case locate fs p of
        Inl e \<Rightarrow> (fs, Some e)
      | Inr (par, c) \<Rightarrow>
          if special c \<or> nodes fs (par @ [c]) \<noteq> None then (fs, Some FileExistsError)
          else (fs\<lparr>nodes := (nodes fs)(par @ [c] \<mapsto> Dir)\<rparr>, None))"

definition split_twice :: "string \<Rightarrow> string \<times> string" where
  "split_twice name =
     (if snd (path_split name) = [] then path_split (fst (path_split name))
      else path_split name)"

lemma length_rstrip_sep: "length (rstrip_sep h) \<le> length h"
  unfolding rstrip_sep_def by (metis length_dropWhile_le length_rev)

lemma length_path_split: "length (fst (path_split p)) + length (snd (path_split p)) \<le> length p"
proof -
  define t where "t = rev (takeWhile (\<lambda>c. c \<noteq> CHR ''/'') (rev p))"
  define h where "h = take (length p - length t) p"
  have lt: "length t \<le> length p"
    unfolding t_def by (metis length_rev length_takeWhile_le)
  have lh: "length h + length t = length p"
    unfolding h_def using lt by simp
  have ps: "path_split p =
      (if h \<noteq> [] \<and> h \<noteq> replicate (length h) (CHR ''/'') then rstrip_sep h else h, t)"
    unfolding path_split_def Let_def t_def h_def by simp
  show ?thesis
    using lh length_rstrip_sep [of h] by (simp add: ps)
qed

lemma length_fst_path_split:
  "snd (path_split p) \<noteq> [] \<Longrightarrow> length (fst (path_split p)) < length p"
  using length_path_split [of p] by (cases "snd (path_split p)") simp_all

lemma length_split_twice:
  "snd (split_twice name) \<noteq> [] \<Longrightarrow> length (fst (split_twice name)) < length name"
proof (cases "snd (path_split name) = []")
  case True
  assume a: "snd (split_twice name) \<noteq> []"
  from True have st: "split_twice name = path_split (fst (path_split name))"
    by (simp add: split_twice_def)
  from a st have "length (fst (split_twice name)) < length (fst (path_split name))"
    using length_fst_path_split [of "fst (path_split name)"] by simp
  moreover have "length (fst (path_split name)) \<le> length name"
    using length_path_split [of name] by simp
  ultimately show ?thesis by simp
next
  case False
  then show ?thesis
    using length_fst_path_split [of name] by (simp add: split_twice_def)
qed

text \<open>
  \<^verbatim>\<open>os.makedirs(name)\<close> with \<^verbatim>\<open>exist_ok=False\<close>: create the missing parents first
  (a \<^verbatim>\<open>FileExistsError\<close> from that recursive call is passed over), then the leaf.
\<close>

function makedirs :: "fsys \<Rightarrow> string \<Rightarrow> outcome" where
  "makedirs fs name =
     (if fst (split_twice name) \<noteq> [] \<and> snd (split_twice name) \<noteq> [] \<and>
         \<not> exists fs (fst (split_twice name))
      then (case makedirs fs (fst (split_twice name)) of
              (fs1, Some e) \<Rightarrow>
                if e = FileExistsError
                then (if snd (split_twice name) = ''.'' then (fs1, None) else mkdir fs1 name)
                else (fs1, Some e)
            | (fs1, None) \<Rightarrow>
                if snd (split_twice name) = ''.'' then (fs1, None) else mkdir fs1 name)
      else mkdir fs name)"
  by pat_completeness auto
termination
  by (relation "measure (\<lambda>(fs, name). length name)") (auto simp: length_split_twice)

declare makedirs.simps [simp del]

text \<open>Moving an entry together with everything below it.\<close>

definition relocate :: "(path \<Rightarrow> node option) \<Rightarrow> path \<Rightarrow> path \<Rightarrow> (path \<Rightarrow> node option)" where
  "relocate nd sp dp =
     (\<lambda>q. if prefix dp q then nd (sp @ drop (length dp) q)
          else if prefix sp q then None
          else nd q)"

definition renamed :: "fsys \<Rightarrow> path \<Rightarrow> path \<Rightarrow> fsys" where
  "renamed fs sp dp =
     fs\<lparr>nodes := relocate (nodes fs) sp dp,
        cwd := (if prefix sp (cwd fs) then dp @ drop (length sp) (cwd fs) else cwd fs)\<rparr>"

text \<open>
  \<^verbatim>\<open>os.rename\<close>, as rename(2): renaming an entry to itself does nothing; a regular file
  replaces a regular file; a directory replaces only an empty directory and cannot be
  moved below itself.
\<close>

definition os_rename :: "fsys \<Rightarrow> string \<Rightarrow> string \<Rightarrow> outcome" where
  "os_rename fs src dst =
     (case stat fs src of
        Inl e \<Rightarrow> (fs, Some e)
      | Inr (sp, sn) \<Rightarrow>
          (case locate fs dst of
             Inl e \<Rightarrow> (fs, Some e)
           | Inr (par, c) \<Rightarrow>
               if special c \<or> components src = [] \<or> special (last (components src))
               then (fs, Some OSError)
               else if par @ [c] = sp then (fs, None)
               else (case sn of
                       File _ \<Rightarrow>
                         if nodes fs (par @ [c]) = Some Dir then (fs, Some IsADirectoryError)
                         else if last (split_sep dst) = [] then (fs, Some NotADirectoryError)
                         else (renamed fs sp (par @ [c]), None)
                     | Dir \<Rightarrow>
                         if prefix sp (par @ [c]) then (fs, Some OSError)
                         else (case nodes fs (par @ [c]) of
                                 Some (File _) \<Rightarrow> (fs, Some NotADirectoryError)
                               | Some Dir \<Rightarrow>
                                   if \<exists>x. nodes fs (par @ [c, x]) \<noteq> None then (fs, Some OSError)
                                   else (renamed fs sp (par @ [c]), None)
                               | None \<Rightarrow> (renamed fs sp (par @ [c]), None)))))"

text \<open>\<^verbatim>\<open>shutil.copy2\<close> of a regular file, and \<^verbatim>\<open>os.unlink\<close>.\<close>

definition copy2 :: "fsys \<Rightarrow> string \<Rightarrow> string \<Rightarrow> outcome" where
  "copy2 fs src dst =
     (let dst1 = (if isdir fs dst then path_join dst (basename src) else dst)
      in case stat fs src of
           Inl e \<Rightarrow> (fs, Some e)
         | Inr (sp, Dir) \<Rightarrow> (fs, Some IsADirectoryError)
         | Inr (sp, File content) \<Rightarrow>
             (case locate fs dst1 of
                Inl e \<Rightarrow> (fs, Some e)
              | Inr (par, c) \<Rightarrow>
                  if par @ [c] = sp then (fs, Some ShutilError)
                  else if special c \<or> last (split_sep dst1) = [] \<or>
                          nodes fs (par @ [c]) = Some Dir
                  then (fs, Some IsADirectoryError)
                  else (fs\<lparr>nodes := (nodes fs)(par @ [c] \<mapsto> File content)\<rparr>, None)))"

definition os_unlink :: "fsys \<Rightarrow> string \<Rightarrow> outcome" where
  "os_unlink fs p =
     (case stat fs p of
        Inl e \<Rightarrow> (fs, Some e)
      | Inr (q, Dir) \<Rightarrow> (fs, Some IsADirectoryError)
      | Inr (q, File _) \<Rightarrow> (fs\<lparr>nodes := (nodes fs)(q := None)\<rparr>, None))"

text \<open>
  \<^verbatim>\<open>shutil.copytree\<close> creates the destination with \<^verbatim>\<open>os.makedirs\<close> and copies what
  is below the source; \<^verbatim>\<open>shutil.rmtree\<close> removes a directory with what is below it.
\<close>

definition copytree :: "fsys \<Rightarrow> string \<Rightarrow> string \<Rightarrow> outcome" where
  "copytree fs src dst =
     (case makedirs fs dst of
        (fs1, Some e) \<Rightarrow> (fs1, Some e)
      | (fs1, None) \<Rightarrow>
          (case stat fs1 src of
             Inl e \<Rightarrow> (fs1, Some e)
           | Inr (sp, _) \<Rightarrow>
               (case stat fs1 dst of
                  Inl e \<Rightarrow> (fs1, Some e)
                | Inr (dp, _) \<Rightarrow>
                    (fs1\<lparr>nodes := (\<lambda>q. if strict_prefix dp q
                                          then nodes fs1 (sp @ drop (length dp) q)
                                          else nodes fs1 q)\<rparr>, None))))"

definition rmtree :: "fsys \<Rightarrow> string \<Rightarrow> outcome" where
  "rmtree fs p =
     (case stat fs p of
        Inl e \<Rightarrow> (fs, Some e)
      | Inr (q, File _) \<Rightarrow> (fs, Some NotADirectoryError)
      | Inr (q, Dir) \<Rightarrow> (fs\<lparr>nodes := (\<lambda>r. if prefix q r then None else nodes fs r)\<rparr>, None))"

text \<open>
  \<^verbatim>\<open>shutil.move(src, dst)\<close>. A destination that is a directory receives the source
  under the source's own name, which must be free there. The rename is tried first; when
  it fails with an \<^verbatim>\<open>OSError\<close>, a directory is copied and removed (unless the
  destination lies inside it), a regular file is copied and unlinked.
\<close>

definition move_fallback :: "fsys \<Rightarrow> string \<Rightarrow> string \<Rightarrow> string \<Rightarrow> outcome" where
  "move_fallback fs src dst real_dst =
     (if isdir fs src then
        (if destinsrc fs src dst then (fs, Some ShutilError)
         else (case copytree fs src real_dst of
                 (fs1, Some e) \<Rightarrow> (fs1, Some e)
               | (fs1, None) \<Rightarrow> rmtree fs1 src))
      else (case copy2 fs src real_dst of
              (fs1, Some e) \<Rightarrow> (fs1, Some e)
            | (fs1, None) \<Rightarrow> os_unlink fs1 src))"

definition move_to :: "fsys \<Rightarrow> string \<Rightarrow> string \<Rightarrow> string \<Rightarrow> outcome" where
  "move_to fs src dst real_dst =
     (case os_rename fs src real_dst of
        (fs1, None) \<Rightarrow> (fs1, None)
      | (fs1, Some e) \<Rightarrow>
          if is_OSError e then move_fallback fs src dst real_dst else (fs1, Some e))"

definition shutil_move :: "fsys \<Rightarrow> string \<Rightarrow> string \<Rightarrow> outcome" where
  "shutil_move fs src dst =
     (if isdir fs dst then
        (if samefile fs src dst then os_rename fs src dst
         else if exists fs (path_join dst (shutil_basename src)) then (fs, Some ShutilError)
         else move_to fs src dst (path_join dst (shutil_basename src)))
      else move_to fs src dst dst)"

section \<open>The reorganizer\<close>

text \<open>
  The table that \<^verbatim>\<open>pd.read_csv\<close> returns for a path, or the exception it raises, is a
  parameter \<open>read_csv\<close>: the parser is not part of the repository, and the spreadsheet is
  taken to lie outside the tree that is reorganized.
\<close>

subsection \<open>organize.py\<close>

text \<open>Lines 13 and 14: the team directory is created when nothing exists at its path.\<close>

definition ensure_directory :: "fsys \<Rightarrow> string \<Rightarrow> outcome" where
  "ensure_directory fs team_directory =
     (if \<not> exists fs team_directory then makedirs fs team_directory else (fs, None))"

text \<open>Lines 15 to 18: the photo is moved when something exists at its path.\<close>

definition move_photo :: "fsys \<Rightarrow> string \<Rightarrow> string \<Rightarrow> outcome" where
  "move_photo fs source_path destination_path =
     (if exists fs source_path then shutil_move fs source_path destination_path
      else (fs, None))"

text \<open>Lines 10 to 18: the body of the loop, for one row.\<close>

definition organize_row ::
  "string \<Rightarrow> string \<Rightarrow> string \<Rightarrow> string list \<Rightarrow> (string \<Rightarrow> cell) \<Rightarrow> fsys \<Rightarrow> outcome" where
  "organize_row image_directory team_col photo_col cols row fs =
     (case getitem cols row team_col of
        Inl e \<Rightarrow> (fs, Some e)
      | Inr team_value \<Rightarrow>
          (case getitem cols row photo_col of
             Inl e \<Rightarrow> (fs, Some e)
           | Inr photo_value \<Rightarrow>
               (let team_name = py_strip (py_str team_value);
                    photo_name = py_strip (py_str photo_value);
                    team_directory = path_join image_directory team_name
                in case ensure_directory fs team_directory of
                     (fs1, Some e) \<Rightarrow> (fs1, Some e)
                   | (fs1, None) \<Rightarrow>
                       (let source_path = path_join image_directory photo_name;
                            destination_path = path_join team_directory photo_name
                        in move_photo fs1 source_path destination_path))))"

text \<open>Line 9: the loop over the rows; an exception ends it.\<close>

fun organize_rows ::
  "string \<Rightarrow> string \<Rightarrow> string \<Rightarrow> string list \<Rightarrow> (string \<Rightarrow> cell) list \<Rightarrow> fsys \<Rightarrow> outcome" where
  "organize_rows image_directory team_col photo_col cols [] fs = (fs, None)"
| "organize_rows image_directory team_col photo_col cols (row # rest) fs =
     (case organize_row image_directory team_col photo_col cols row fs of
        (fs1, Some e) \<Rightarrow> (fs1, Some e)
      | (fs1, None) \<Rightarrow> organize_rows image_directory team_col photo_col cols rest fs1)"

definition organize_photos_by_team ::
  "(string \<Rightarrow> error + dataframe) \<Rightarrow> string \<Rightarrow> string \<Rightarrow> string \<Rightarrow> string \<Rightarrow> fsys \<Rightarrow> outcome" where
  "organize_photos_by_team read_csv csv_path image_directory team_col photo_col fs =
     (case read_csv csv_path of
        Inl e \<Rightarrow> (fs, Some e)
      | Inr df \<Rightarrow> organize_rows image_directory team_col photo_col (columns df) (rows df) fs)"

subsection \<open>organize-mac.py\<close>

text \<open>
  Lines 78 to 88 of \<^verbatim>\<open>PhotoOrganizer.run_organizer\<close>: the same statements, written
  inline. The four texts of the widgets are the arguments.
\<close>

fun run_organizer_rows ::
  "string \<Rightarrow> string \<Rightarrow> string \<Rightarrow> string list \<Rightarrow> (string \<Rightarrow> cell) list \<Rightarrow> fsys \<Rightarrow> outcome" where
  "run_organizer_rows image_directory team_col photo_col cols [] fs = (fs, None)"
| "run_organizer_rows image_directory team_col photo_col cols (row # rest) fs =
     (case getitem cols row team_col of
        Inl e \<Rightarrow> (fs, Some e)
      | Inr team_value \<Rightarrow>
          (case getitem cols row photo_col of
             Inl e \<Rightarrow> (fs, Some e)
           | Inr photo_value \<Rightarrow>
               (let team_name = py_strip (py_str team_value);
                    photo_name = py_strip (py_str photo_value);
                    team_directory = path_join image_directory team_name
                in case (if \<not> exists fs team_directory then makedirs fs team_directory
                         else (fs, None)) of
                     (fs1, Some e) \<Rightarrow> (fs1, Some e)
                   | (fs1, None) \<Rightarrow>
                       (let source_path = path_join image_directory photo_name;
                            destination_path = path_join team_directory photo_name
                        in case (if exists fs1 source_path
                                 then shutil_move fs1 source_path destination_path
                                 else (fs1, None)) of
                             (fs2, Some e) \<Rightarrow> (fs2, Some e)
                           | (fs2, None) \<Rightarrow>
                               run_organizer_rows image_directory team_col photo_col cols
                                 rest fs2))))"

definition run_organizer ::
  "(string \<Rightarrow> error + dataframe) \<Rightarrow> string \<Rightarrow> string \<Rightarrow> string \<Rightarrow> string \<Rightarrow> fsys \<Rightarrow> outcome" where
  "run_organizer read_csv csv_path image_directory team_col photo_col fs =
     (case read_csv csv_path of
        Inl e \<Rightarrow> (fs, Some e)
      | Inr df \<Rightarrow>
          run_organizer_rows image_directory team_col photo_col (columns df) (rows df) fs)"

section \<open>A sample run\<close>

text \<open>
  The scenario of the specification: the directory \<^verbatim>\<open>/photos\<close> holds \<^verbatim>\<open>a.jpg\<close> and
  \<^verbatim>\<open>b.jpg\<close>, and the table sends the first to team Red and the second to team Blue.
\<close>

definition sample_fs :: fsys where
  "sample_fs =
     \<lparr>nodes = [[] \<mapsto> Dir, [''photos''] \<mapsto> Dir,
               [''photos'', ''a.jpg''] \<mapsto> File ''A'', [''photos'', ''b.jpg''] \<mapsto> File ''B''],
      cwd = []\<rparr>"

definition sample_row :: "string \<Rightarrow> string \<Rightarrow> string \<Rightarrow> cell" where
  "sample_row team photo =
     (\<lambda>c. if c = ''Team'' then StrV team else if c = ''Photo'' then StrV photo else NaN)"

definition sample_table :: "(string \<Rightarrow> cell) list \<Rightarrow> string \<Rightarrow> error + dataframe" where
  "sample_table rs = (\<lambda>csv_path. Inr \<lparr>columns = [''Team'', ''Photo''], rows = rs\<rparr>)"

text \<open>The same directory in which \<^verbatim>\<open>Blue\<close> already names a regular file.\<close>

definition blocked_fs :: fsys where
  "blocked_fs = sample_fs\<lparr>nodes := (nodes sample_fs)([''photos'', ''Blue''] \<mapsto> File ''x'')\<rparr>"

text \<open>The same directory with a sub-directory \<^verbatim>\<open>album\<close> that holds \<^verbatim>\<open>c.jpg\<close>.\<close>

definition album_fs :: fsys where
  "album_fs =
     sample_fs\<lparr>nodes := (nodes sample_fs)([''photos'', ''album''] \<mapsto> Dir,
        [''photos'', ''album'', ''c.jpg''] \<mapsto> File ''C'')\<rparr>"

section \<open>Plain names\<close>

text \<open>
  The statements below speak of team and photo values that are plain names: not empty,
  neither \<^verbatim>\<open>.\<close> nor \<^verbatim>\<open>..\<close>, with no slash and no NUL character in them. Such a value
  is one path component, so that \<^verbatim>\<open>os.path.join\<close> puts it below the directory it is
  joined to.
\<close>

definition plain :: "string \<Rightarrow> bool" where
  "plain s = (s \<noteq> [] \<and> s \<noteq> ''.'' \<and> s \<noteq> ''..'' \<and> CHR ''/'' \<notin> set s \<and> CHR 0x00 \<notin> set s)"

text \<open>The trimmed team and photo texts of a row (lines 10 and 11).\<close>

definition team_of :: "string \<Rightarrow> (string \<Rightarrow> cell) \<Rightarrow> string" where
  "team_of team_col row = py_strip (py_str (row team_col))"

definition photo_of :: "string \<Rightarrow> (string \<Rightarrow> cell) \<Rightarrow> string" where
  "photo_of photo_col row = py_strip (py_str (row photo_col))"

definition names :: "string \<Rightarrow> string \<Rightarrow> (string \<Rightarrow> cell) \<Rightarrow> string \<times> string" where
  "names team_col photo_col row = (team_of team_col row, photo_of photo_col row)"

text \<open>
  The source directory: a path text without NUL and without a \<^verbatim>\<open>..\<close> component that
  names the directory \<open>D\<close>, every ancestor of which is a directory.
\<close>

definition names_of :: "string list \<Rightarrow> path" where
  "names_of cs = filter (\<lambda>c. c \<noteq> [] \<and> c \<noteq> ''.'') cs"

definition dir_at :: "fsys \<Rightarrow> string \<Rightarrow> path \<Rightarrow> bool" where
  "dir_at fs p D =
     (CHR 0x00 \<notin> set p \<and> ''..'' \<notin> set (split_sep p) \<and>
      D = start fs p @ names_of (split_sep p) \<and>
      (\<forall>q \<in> set (prefixes D). nodes fs q = Some Dir))"

text \<open>
  The components of a path text up to its last one, and the texts that spell a list of
  plain names below a directory.
\<close>

definition segs :: "string \<Rightarrow> string list" where
  "segs a = (if a = [] then [] else if last a = CHR ''/'' then butlast (split_sep a) else split_sep a)"

definition spells :: "string \<Rightarrow> string \<Rightarrow> string list \<Rightarrow> bool" where
  "spells a s xs =
     (s \<noteq> [] \<and> last s \<noteq> CHR ''/'' \<and> (CHR 0x00 \<in> set s \<longleftrightarrow> CHR 0x00 \<in> set a) \<and>
      isabs s = isabs a \<and> split_sep s = segs a @ xs \<and> xs \<noteq> [] \<and> list_all plain xs)"

text \<open>
  What lines 12 to 18 do with plain names below the source directory \<open>D\<close>, read off the
  entries at \<open>D/team\<close>, \<open>D/photo\<close>, \<open>D/team/photo\<close> and \<open>D/team/photo/photo\<close>; lemma
  \<open>organize_row_plain\<close> proves that the row does exactly this.
\<close>

definition ensured :: "path \<Rightarrow> string \<Rightarrow> fsys \<Rightarrow> fsys" where
  "ensured D t fs =
     (if nodes fs (D @ [t]) = None then fs\<lparr>nodes := (nodes fs)(D @ [t] \<mapsto> Dir)\<rparr> else fs)"

definition move_plain :: "path \<Rightarrow> string \<Rightarrow> string \<Rightarrow> fsys \<Rightarrow> outcome" where
  "move_plain D t p fs =
     (case nodes fs (D @ [p]) of
        None \<Rightarrow> (fs, None)
      | Some e \<Rightarrow>
          if nodes fs (D @ [t]) \<noteq> Some Dir then (fs, Some NotADirectoryError)
          else if t = p then (fs, Some ShutilError)
          else (case nodes fs (D @ [t, p]) of
                  None \<Rightarrow> (renamed fs (D @ [p]) (D @ [t, p]), None)
                | Some (File _) \<Rightarrow>
                    if e = Dir then (fs, Some FileExistsError)
                    else (renamed fs (D @ [p]) (D @ [t, p]), None)
                | Some Dir \<Rightarrow>
                    if nodes fs (D @ [t, p, p]) \<noteq> None then (fs, Some ShutilError)
                    else (renamed fs (D @ [p]) (D @ [t, p, p]), None)))"

definition row_plain :: "path \<Rightarrow> string \<Rightarrow> string \<Rightarrow> fsys \<Rightarrow> outcome" where
  "row_plain D t p fs = move_plain D t p (ensured D t fs)"

fun run_plain :: "path \<Rightarrow> (string \<times> string) list \<Rightarrow> fsys \<Rightarrow> outcome" where
  "run_plain D [] fs = (fs, None)"
| "run_plain D ((t, p) # rest) fs =
     (case row_plain D t p fs of
        (fs1, Some e) \<Rightarrow> (fs1, Some e)
      | (fs1, None) \<Rightarrow> run_plain D rest fs1)"

text \<open>
  The same, split into what the row decides from the entries it reads (an error, nothing
  to move, or the place the photo is moved to) and what it then does.
\<close>

definition decide :: "path \<Rightarrow> string \<Rightarrow> string \<Rightarrow> fsys \<Rightarrow> error + path option" where
  "decide D t p g =
     (case nodes g (D @ [p]) of
        None \<Rightarrow> Inr None
      | Some e \<Rightarrow>
          if nodes g (D @ [t]) \<noteq> Some Dir then Inl NotADirectoryError
          else if t = p then Inl ShutilError
          else (case nodes g (D @ [t, p]) of
                  None \<Rightarrow> Inr (Some (D @ [t, p]))
                | Some (File _) \<Rightarrow>
                    if e = Dir then Inl FileExistsError else Inr (Some (D @ [t, p]))
                | Some Dir \<Rightarrow>
                    if nodes g (D @ [t, p, p]) \<noteq> None then Inl ShutilError
                    else Inr (Some (D @ [t, p, p]))))"

definition act :: "path \<Rightarrow> string \<Rightarrow> path option \<Rightarrow> fsys \<Rightarrow> fsys" where
  "act D p m g = (case m of None \<Rightarrow> g | Some d \<Rightarrow> renamed g (D @ [p]) d)"

definition lands :: "path \<Rightarrow> string \<Rightarrow> string \<Rightarrow> path option \<Rightarrow> bool" where
  "lands D t p m =
     (case m of None \<Rightarrow> True | Some d \<Rightarrow> t \<noteq> p \<and> (d = D @ [t, p] \<or> d = D @ [t, p, p]))"

text \<open>
  Rows are apart when no team name is a photo name of any row; a row is settled when
  its team directory's path is taken and nothing is at its photo's path.
\<close>

definition apart :: "(string \<times> string) set \<Rightarrow> bool" where
  "apart A = (\<forall>(t, p) \<in> A. \<forall>(t', p') \<in> A. t \<noteq> p')"

definition settled :: "path \<Rightarrow> fsys \<Rightarrow> string \<times> string \<Rightarrow> bool" where
  "settled D fs tp = (nodes fs (D @ [fst tp]) \<noteq> None \<and> nodes fs (D @ [snd tp]) = None)"

section \<open>Paths below the source directory\<close>

lemma split_sep_not_Nil [simp]: "split_sep s \<noteq> []"
  by (induction s) auto

lemma split_sep_nosep: "CHR ''/'' \<notin> set t \<Longrightarrow> split_sep t = [t]"
  by (induction t) auto

lemma split_sep_append:
  "split_sep (a @ b) = butlast (split_sep a) @ (last (split_sep a) @ hd (split_sep b)) # tl (split_sep b)"
proof (induction a)
  case Nil
  show ?case by (cases "split_sep b") auto
next
  case (Cons c a)
  show ?case
  proof (cases "c = CHR ''/''")
    case True
    then show ?thesis using Cons by simp
  next
    case False
    then show ?thesis using Cons
      by (cases "split_sep a") (auto simp: butlast_append)
  qed
qed

lemma split_sep_snoc_sep: "split_sep (a @ ''/'') = split_sep a @ [[]]"
  by (simp add: split_sep_append)

lemma split_sep_sep_append: "split_sep (a @ CHR ''/'' # b) = split_sep a @ split_sep b"
  using split_sep_append [of a "CHR ''/'' # b"] by simp

lemma last_split_sep: "a \<noteq> [] \<Longrightarrow> last a = CHR ''/'' \<Longrightarrow> last (split_sep a) = []"
proof -
  assume "a \<noteq> []" "last a = CHR ''/''"
  then have "a = butlast a @ ''/''" by (metis append_butlast_last_id)
  then have "split_sep a = split_sep (butlast a) @ [[]]" by (metis split_sep_snoc_sep)
  then show ?thesis by simp
qed

lemma split_sep_join:
  assumes "plain t"
  shows "split_sep (path_join a t) = segs a @ [t]"
proof -
  from assms have t: "t \<noteq> []" "CHR ''/'' \<notin> set t" "hd t \<noteq> CHR ''/''"
    by (auto simp: plain_def) (metis hd_in_set)
  have st: "split_sep t = [t]" using t by (simp add: split_sep_nosep)
  show ?thesis
  proof (cases "a = []")
    case True
    then show ?thesis using t st by (simp add: path_join_def segs_def)
  next
    case False
    show ?thesis
    proof (cases "last a = CHR ''/''")
      case True
      then show ?thesis
        using False t st last_split_sep [of a]
        by (simp add: path_join_def segs_def split_sep_append)
    next
      case F2: False
      then show ?thesis
        using False t st
        by (simp add: path_join_def segs_def split_sep_sep_append)
    qed
  qed
qed

lemma plain_facts:
  "plain t \<Longrightarrow> t \<noteq> [] \<and> hd t \<noteq> CHR ''/'' \<and> last t \<noteq> CHR ''/'' \<and> CHR ''/'' \<notin> set t \<and>
     CHR 0x00 \<notin> set t \<and> t \<noteq> ''.'' \<and> t \<noteq> ''..''"
  unfolding plain_def by (metis hd_in_set last_in_set)

lemma spells_join1: "plain t \<Longrightarrow> spells a (path_join a t) [t]"
  using plain_facts [of t] split_sep_join [of t a]
  by (auto simp: spells_def path_join_def isabs_def hd_append)

lemma spells_join:
  assumes "spells a s xs" "plain p"
  shows "spells a (path_join s p) (xs @ [p])"
proof -
  from assms(1) have s: "s \<noteq> []" "last s \<noteq> CHR ''/''" by (auto simp: spells_def)
  have pj: "path_join s p = s @ CHR ''/'' # p"
    using s plain_facts [OF assms(2)] by (simp add: path_join_def)
  have "split_sep (path_join s p) = split_sep s @ [p]"
    using plain_facts [OF assms(2)] by (simp add: pj split_sep_sep_append split_sep_nosep)
  then show ?thesis
    using assms s plain_facts [OF assms(2)]
    by (auto simp: spells_def pj isabs_def hd_append)
qed

lemma enter_plain [simp]: "plain c \<Longrightarrow> enter cur c = cur @ [c]"
  by (auto simp: enter_def plain_def)

lemma walk_append:
  "walk nd cur (cs @ ds) = (case walk nd cur cs of Inl e \<Rightarrow> Inl e | Inr q \<Rightarrow> walk nd q ds)"
  by (induction cs arbitrary: cur) (auto split: option.splits node.splits)

lemma walk_names:
  "''..'' \<notin> set cs \<Longrightarrow> \<forall>q. prefix q (cur @ names_of cs) \<longrightarrow> nd q = Some Dir \<Longrightarrow>
   walk nd cur cs = Inr (cur @ names_of cs)"
proof (induction cs arbitrary: cur)
  case Nil
  then show ?case by (simp add: names_of_def)
next
  case (Cons c cs)
  have cur: "nd cur = Some Dir" using Cons.prems(2) by simp
  have e: "cur @ names_of (c # cs) = enter cur c @ names_of cs"
    using Cons.prems(1) by (auto simp: names_of_def enter_def)
  show ?case
    using Cons.IH [of "enter cur c"] Cons.prems cur e by simp
qed

lemma names_of_segs: "names_of (segs a) = names_of (split_sep a)"
proof (cases "a \<noteq> [] \<and> last a = CHR ''/''")
  case True
  then have "split_sep a = butlast (split_sep a) @ [[]]"
    using last_split_sep [of a] append_butlast_last_id [of "split_sep a"] by simp
  moreover have "names_of (butlast (split_sep a) @ [[]]) = names_of (butlast (split_sep a))"
    by (simp add: names_of_def)
  ultimately have "names_of (split_sep a) = names_of (butlast (split_sep a))"
    by simp
  then show ?thesis using True by (simp add: segs_def)
next
  case False
  then show ?thesis by (auto simp: segs_def names_of_def)
qed

lemma set_segs: "set (segs a) \<subseteq> set (split_sep a)"
  by (auto simp: segs_def dest: in_set_butlastD)

lemma walk_dir:
  assumes "dir_at fs a D"
  shows "walk (nodes fs) (start fs a) (segs a) = Inr D"
proof -
  have "''..'' \<notin> set (segs a)" using assms set_segs by (auto simp: dir_at_def)
  moreover have "\<forall>q. prefix q (start fs a @ names_of (segs a)) \<longrightarrow> nodes fs q = Some Dir"
    using assms by (auto simp: dir_at_def names_of_segs in_set_prefixes)
  ultimately show ?thesis
    using walk_names [of "segs a" "start fs a" "nodes fs"] assms
    by (simp add: dir_at_def names_of_segs)
qed

lemma dir_at_Dir: "dir_at fs a D \<Longrightarrow> nodes fs D = Some Dir"
  by (auto simp: dir_at_def in_set_prefixes)

lemma start_spells: "spells a s xs \<Longrightarrow> start fs s = start fs a"
  by (simp add: spells_def start_def)

lemma stat_spells:
  assumes "dir_at fs a D" "spells a s xs"
  shows "stat fs s =
     (case walk (nodes fs) D xs of
        Inl e \<Rightarrow> Inl e
      | Inr q \<Rightarrow> (case nodes fs q of None \<Rightarrow> Inl FileNotFoundError | Some n \<Rightarrow> Inr (q, n)))"
proof -
  from assms have "CHR 0x00 \<notin> set s" "s \<noteq> []" "split_sep s = segs a @ xs"
    by (auto simp: spells_def dir_at_def)
  then show ?thesis
    using walk_dir [OF assms(1)] start_spells [OF assms(2), of fs]
    by (simp add: stat_def walk_append)
qed

lemma components_spells: "spells a s xs \<Longrightarrow> components s = segs a @ xs"
proof -
  assume a: "spells a s xs"
  then obtain ys y where xs: "xs = ys @ [y]" and y: "y \<noteq> []"
    by (cases xs rule: rev_cases) (auto simp: spells_def plain_def)
  from a have "split_sep s = segs a @ ys @ [y]" by (simp add: spells_def xs)
  then show ?thesis using y by (simp add: components_def xs)
qed

lemma locate_spells:
  assumes "dir_at fs a D" "spells a s xs"
  shows "locate fs s =
     (case walk (nodes fs) D (butlast xs) of
        Inl e \<Rightarrow> Inl e
      | Inr par \<Rightarrow>
          (case nodes fs par of
             None \<Rightarrow> Inl FileNotFoundError
           | Some (File _) \<Rightarrow> Inl NotADirectoryError
           | Some Dir \<Rightarrow> Inr (par, last xs)))"
proof -
  from assms have f: "CHR 0x00 \<notin> set s" "s \<noteq> []" "xs \<noteq> []"
    by (auto simp: spells_def dir_at_def)
  have c: "components s = segs a @ xs" by (rule components_spells [OF assms(2)])
  have l: "last (segs a @ xs) = last xs" "butlast (segs a @ xs) = segs a @ butlast xs"
    using f by (simp_all add: butlast_append)
  show ?thesis
    unfolding locate_def c l
    using f walk_dir [OF assms(1)] start_spells [OF assms(2), of fs]
    by (simp add: walk_append)
qed

lemma split_sep_slashes: "split_sep (x @ replicate k (CHR ''/'')) = split_sep x @ replicate k []"
proof (induction k)
  case 0
  show ?case by simp
next
  case (Suc k)
  have "x @ replicate (Suc k) (CHR ''/'') = (x @ replicate k (CHR ''/'')) @ ''/''"
    by (simp add: replicate_append_same)
  then have "split_sep (x @ replicate (Suc k) (CHR ''/'')) =
      split_sep (x @ replicate k (CHR ''/'')) @ [[]]"
    by (metis split_sep_snoc_sep)
  then show ?case using Suc by (simp add: replicate_append_same)
qed

lemma rstrip_sep_decomp:
  "\<exists>k. x = rstrip_sep x @ replicate k (CHR ''/'')"
proof -
  let ?P = "\<lambda>c. c = CHR ''/''"
  have "rev x = takeWhile ?P (rev x) @ dropWhile ?P (rev x)" by simp
  then have "x = rev (dropWhile ?P (rev x)) @ rev (takeWhile ?P (rev x))"
    by (metis rev_append rev_rev_ident)
  moreover have "\<forall>c \<in> set (rev (takeWhile ?P (rev x))). c = CHR ''/''"
    by (auto dest: set_takeWhileD)
  then have "rev (takeWhile ?P (rev x)) =
      replicate (length (rev (takeWhile ?P (rev x)))) (CHR ''/'')"
    by (metis replicate_length_same)
  ultimately show ?thesis unfolding rstrip_sep_def by metis
qed

lemma path_split_tail:
  assumes "a' = [] \<or> last a' = CHR ''/''" "CHR ''/'' \<notin> set t"
  shows "path_split (a' @ t) =
     (if a' \<noteq> [] \<and> a' \<noteq> replicate (length a') (CHR ''/'') then rstrip_sep a' else a', t)"
proof -
  have tt: "takeWhile (\<lambda>c. c \<noteq> CHR ''/'') (rev t) = rev t"
    by (rule takeWhile_eq_all_conv [THEN iffD2]) (use assms(2) in auto)
  have tw: "takeWhile (\<lambda>c. c \<noteq> CHR ''/'') (rev t @ rev a') = rev t"
  proof (cases "a' = []")
    case True
    then show ?thesis using tt by simp
  next
    case False
    then obtain ys where ys: "a' = ys @ ''/''"
      using assms(1) append_butlast_last_id [of a'] by metis
    have "rev a' = CHR ''/'' # rev ys"
      unfolding ys by simp
    then have "takeWhile (\<lambda>c. c \<noteq> CHR ''/'') (rev a') = []"
      by simp
    moreover have "takeWhile (\<lambda>c. c \<noteq> CHR ''/'') (rev t @ rev a') =
        rev t @ takeWhile (\<lambda>c. c \<noteq> CHR ''/'') (rev a')"
      by (rule takeWhile_append2) (use assms(2) in auto)
    ultimately show ?thesis by simp
  qed
  have t1: "rev (takeWhile (\<lambda>c. c \<noteq> CHR ''/'') (rev (a' @ t))) = t"
    using tw by simp
  have h1: "take (length (a' @ t) - length t) (a' @ t) = a'"
    by simp
  show ?thesis
    unfolding path_split_def Let_def t1 h1 by (rule refl)
qed

lemma path_join_decomp:
  assumes "plain t"
  shows "\<exists>a'. path_join a t = a' @ t \<and> (a' = [] \<or> last a' = CHR ''/'') \<and>
           (a = [] \<longrightarrow> a' = []) \<and> (a \<noteq> [] \<longrightarrow> (a' = a \<or> a' = a @ ''/''))"
  using plain_facts [OF assms] by (auto simp: path_join_def)

lemma path_split_join:
  assumes "x \<noteq> []" "last x \<noteq> CHR ''/''" "plain p"
  shows "path_split (path_join x p) = (x, p)"
proof -
  have pj: "path_join x p = (x @ ''/'') @ p"
    using assms plain_facts [OF assms(3)] by (simp add: path_join_def)
  have ne: "x @ ''/'' \<noteq> replicate (length (x @ ''/'')) (CHR ''/'')"
  proof
    assume "x @ ''/'' = replicate (length (x @ ''/'')) (CHR ''/'')"
    then have "\<forall>c \<in> set (x @ ''/''). c = CHR ''/''"
      by (metis in_set_replicate)
    moreover have "last x \<in> set (x @ ''/'')" using assms(1) by simp
    ultimately have "last x = CHR ''/''" by (rule bspec)
    then show False using assms(2) by simp
  qed
  have rs: "rstrip_sep (x @ ''/'') = x"
    using assms(1,2) unfolding rstrip_sep_def
    by (cases x rule: rev_cases) simp_all
  show ?thesis
    unfolding pj
    using path_split_tail [of "x @ ''/''" p] plain_facts [OF assms(3)] ne rs by simp
qed

lemma stat_same_names:
  assumes "dir_at fs a D" "h \<noteq> []" "CHR 0x00 \<notin> set h" "isabs h = isabs a"
    "''..'' \<notin> set (split_sep h)" "names_of (split_sep h) = names_of (split_sep a)"
  shows "stat fs h = Inr (D, Dir)"
proof -
  have D: "D = start fs h @ names_of (split_sep h)"
    using assms by (simp add: dir_at_def start_def)
  have "\<forall>q. prefix q (start fs h @ names_of (split_sep h)) \<longrightarrow> nodes fs q = Some Dir"
    using assms(1) D by (auto simp: dir_at_def in_set_prefixes)
  then have "walk (nodes fs) (start fs h) (split_sep h) = Inr D"
    using walk_names [OF assms(5), of "start fs h" "nodes fs"] D by simp
  then show ?thesis
    using assms(2,3) dir_at_Dir [OF assms(1)] by (simp add: stat_def)
qed

lemma walk_plain_Cons:
  "plain x \<Longrightarrow> walk nd cur (x # xs) =
     (case nd cur of
        None \<Rightarrow> Inl FileNotFoundError
      | Some (File _) \<Rightarrow> Inl NotADirectoryError
      | Some Dir \<Rightarrow> walk nd (cur @ [x]) xs)"
  by (simp split: option.splits node.splits)

lemma head_ok:
  assumes "dir_at fs a D" "plain t"
  shows "snd (path_split (path_join a t)) = t \<and>
         (fst (path_split (path_join a t)) = [] \<or>
          stat fs (fst (path_split (path_join a t))) = Inr (D, Dir))"
proof -
  obtain a' where a': "path_join a t = a' @ t" "a' = [] \<or> last a' = CHR ''/''"
      "a = [] \<longrightarrow> a' = []" "a \<noteq> [] \<longrightarrow> (a' = a \<or> a' = a @ ''/'')"
    using path_join_decomp [OF assms(2), of a] by blast
  have ps: "path_split (path_join a t) =
      (if a' \<noteq> [] \<and> a' \<noteq> replicate (length a') (CHR ''/'') then rstrip_sep a' else a', t)"
    unfolding a'(1) using path_split_tail [OF a'(2), of t] plain_facts [OF assms(2)] by simp
  show ?thesis
  proof (cases "a' = []")
    case True
    then show ?thesis by (simp add: ps)
  next
    case False
    then have ane: "a \<noteq> []" and aa: "a' = a \<or> a' = a @ ''/''" using a'(3,4) by auto
    have nul: "CHR 0x00 \<notin> set a'" using assms(1) aa by (auto simp: dir_at_def)
    have abs: "isabs a' = isabs a" using aa ane by (auto simp: isabs_def)
    have sp: "split_sep a' = split_sep a \<or> split_sep a' = split_sep a @ [[]]"
      using aa split_sep_snoc_sep [of a] by auto
    have nm: "names_of (split_sep a') = names_of (split_sep a)"
      using sp by (auto simp: names_of_def)
    have dd: "''..'' \<notin> set (split_sep a')"
      using sp assms(1) by (auto simp: dir_at_def)
    show ?thesis
    proof (cases "a' = replicate (length a') (CHR ''/'')")
      case True
      then have "fst (path_split (path_join a t)) = a'" by (simp add: ps)
      then show ?thesis
        using stat_same_names [OF assms(1) False nul abs dd nm] by (simp add: ps)
    next
      case nall: False
      obtain k where k: "a' = rstrip_sep a' @ replicate k (CHR ''/'')"
        using rstrip_sep_decomp [of a'] by blast
      let ?r = "rstrip_sep a'"
      have rne: "?r \<noteq> []"
      proof
        assume e: "?r = []"
        then have "a' = replicate k (CHR ''/'')" using k by simp
        then have "a' = replicate (length a') (CHR ''/'')" by (metis length_replicate)
        then show False using nall by simp
      qed
      have s2: "split_sep a' = split_sep ?r @ replicate k []"
        using split_sep_slashes [of ?r k] k by simp
      have nm2: "names_of (split_sep ?r) = names_of (split_sep a)"
        using nm s2 by (simp add: names_of_def)
      have dd2: "''..'' \<notin> set (split_sep ?r)" using dd s2 by auto
      have nul2: "CHR 0x00 \<notin> set ?r" using nul k by (metis Un_iff set_append)
      have "hd a' = hd ?r" using k rne by (metis hd_append2)
      then have abs2: "isabs ?r = isabs a" using abs rne False by (simp add: isabs_def)
      have "fst (path_split (path_join a t)) = ?r" using nall False by (simp add: ps)
      then show ?thesis
        using stat_same_names [OF assms(1) rne nul2 abs2 dd2 nm2] by (simp add: ps)
    qed
  qed
qed

lemma stat1:
  assumes "dir_at fs a D" "plain t"
  shows "stat fs (path_join a t) =
     (case nodes fs (D @ [t]) of None \<Rightarrow> Inl FileNotFoundError | Some n \<Rightarrow> Inr (D @ [t], n))"
  using stat_spells [OF assms(1) spells_join1 [OF assms(2)]] dir_at_Dir [OF assms(1)] assms(2)
  by simp

lemma exists1:
  "dir_at fs a D \<Longrightarrow> plain t \<Longrightarrow> exists fs (path_join a t) = (nodes fs (D @ [t]) \<noteq> None)"
  by (auto simp: exists_def stat1 split: option.splits)

lemma locate1:
  assumes "dir_at fs a D" "plain t"
  shows "locate fs (path_join a t) = Inr (D, t)"
  using locate_spells [OF assms(1) spells_join1 [OF assms(2)]] dir_at_Dir [OF assms(1)]
  by simp

lemma mkdir1:
  assumes "dir_at fs a D" "plain t"
  shows "mkdir fs (path_join a t) =
     (if nodes fs (D @ [t]) \<noteq> None then (fs, Some FileExistsError)
      else (fs\<lparr>nodes := (nodes fs)(D @ [t] \<mapsto> Dir)\<rparr>, None))"
  using assms(2) by (auto simp: mkdir_def locate1 [OF assms] special_def plain_def)

lemma makedirs1:
  assumes "dir_at fs a D" "plain t"
  shows "makedirs fs (path_join a t) = mkdir fs (path_join a t)"
proof -
  have h: "snd (path_split (path_join a t)) = t"
    "fst (path_split (path_join a t)) = [] \<or>
     stat fs (fst (path_split (path_join a t))) = Inr (D, Dir)"
    using head_ok [OF assms] by auto
  have st: "split_twice (path_join a t) = path_split (path_join a t)"
    using h(1) plain_facts [OF assms(2)] by (simp add: split_twice_def)
  have "fst (split_twice (path_join a t)) = [] \<or> exists fs (fst (split_twice (path_join a t)))"
    using h(2) by (auto simp: st exists_def)
  then show ?thesis
    by (subst makedirs.simps) auto
qed

lemma ensure_plain:
  assumes "dir_at fs a D" "plain t"
  shows "ensure_directory fs (path_join a t) =
     (if nodes fs (D @ [t]) = None then (fs\<lparr>nodes := (nodes fs)(D @ [t] \<mapsto> Dir)\<rparr>, None)
      else (fs, None))"
  by (simp add: ensure_directory_def exists1 [OF assms] makedirs1 [OF assms] mkdir1 [OF assms])

lemma spells2: "plain t \<Longrightarrow> plain p \<Longrightarrow> spells a (path_join (path_join a t) p) [t, p]"
  using spells_join [OF spells_join1, of t p a] by simp

lemma spells3:
  "plain t \<Longrightarrow> plain p \<Longrightarrow> plain q \<Longrightarrow>
   spells a (path_join (path_join (path_join a t) p) q) [t, p, q]"
  using spells_join [OF spells2, of t p q a] by simp

lemma stat2:
  assumes "dir_at fs a D" "plain t" "plain p"
  shows "stat fs (path_join (path_join a t) p) =
     (case nodes fs (D @ [t]) of
        None \<Rightarrow> Inl FileNotFoundError
      | Some (File _) \<Rightarrow> Inl NotADirectoryError
      | Some Dir \<Rightarrow>
          (case nodes fs (D @ [t, p]) of
             None \<Rightarrow> Inl FileNotFoundError
           | Some n \<Rightarrow> Inr (D @ [t, p], n)))"
  using stat_spells [OF assms(1) spells2 [OF assms(2,3)]] dir_at_Dir [OF assms(1)] assms(2,3)
  by (simp split: option.splits node.splits)

lemma stat3:
  assumes "dir_at fs a D" "plain t" "plain p" "plain q"
  shows "stat fs (path_join (path_join (path_join a t) p) q) =
     (case nodes fs (D @ [t]) of
        None \<Rightarrow> Inl FileNotFoundError
      | Some (File _) \<Rightarrow> Inl NotADirectoryError
      | Some Dir \<Rightarrow>
          (case nodes fs (D @ [t, p]) of
             None \<Rightarrow> Inl FileNotFoundError
           | Some (File _) \<Rightarrow> Inl NotADirectoryError
           | Some Dir \<Rightarrow>
               (case nodes fs (D @ [t, p, q]) of
                  None \<Rightarrow> Inl FileNotFoundError
                | Some n \<Rightarrow> Inr (D @ [t, p, q], n))))"
  using stat_spells [OF assms(1) spells3 [OF assms(2,3,4)]] dir_at_Dir [OF assms(1)] assms(2,3,4)
  by (simp split: option.splits node.splits)

lemma locate2:
  assumes "dir_at fs a D" "plain t" "plain p"
  shows "locate fs (path_join (path_join a t) p) =
     (case nodes fs (D @ [t]) of
        None \<Rightarrow> Inl FileNotFoundError
      | Some (File _) \<Rightarrow> Inl NotADirectoryError
      | Some Dir \<Rightarrow> Inr (D @ [t], p))"
  using locate_spells [OF assms(1) spells2 [OF assms(2,3)]] dir_at_Dir [OF assms(1)] assms(2,3)
  by (simp split: option.splits node.splits)

lemma locate3:
  assumes "dir_at fs a D" "plain t" "plain p" "plain q"
  shows "locate fs (path_join (path_join (path_join a t) p) q) =
     (case nodes fs (D @ [t]) of
        None \<Rightarrow> Inl FileNotFoundError
      | Some (File _) \<Rightarrow> Inl NotADirectoryError
      | Some Dir \<Rightarrow>
          (case nodes fs (D @ [t, p]) of
             None \<Rightarrow> Inl FileNotFoundError
           | Some (File _) \<Rightarrow> Inl NotADirectoryError
           | Some Dir \<Rightarrow> Inr (D @ [t, p], q)))"
  using locate_spells [OF assms(1) spells3 [OF assms(2,3,4)]] dir_at_Dir [OF assms(1)] assms(2,3,4)
  by (simp split: option.splits node.splits)

lemma rstrip_sep_id: "s \<noteq> [] \<Longrightarrow> last s \<noteq> CHR ''/'' \<Longrightarrow> rstrip_sep s = s"
  unfolding rstrip_sep_def by (cases s rule: rev_cases) simp_all

lemma shutil_basename_join: "plain p \<Longrightarrow> shutil_basename (path_join a p) = p"
proof -
  assume p: "plain p"
  have s: "spells a (path_join a p) [p]" by (rule spells_join1 [OF p])
  then have "rstrip_sep (path_join a p) = path_join a p"
    by (simp add: spells_def rstrip_sep_id)
  moreover obtain a' where "path_join a p = a' @ p" "a' = [] \<or> last a' = CHR ''/''"
    using path_join_decomp [OF p, of a] by blast
  then have "snd (path_split (path_join a p)) = p"
    using path_split_tail [of a' p] plain_facts [OF p] by simp
  ultimately show ?thesis by (simp add: shutil_basename_def basename_def)
qed

lemma foldl_enter_plain: "list_all plain xs \<Longrightarrow> foldl enter cur xs = cur @ xs"
  by (induction xs arbitrary: cur) auto

lemma abspath_spells:
  "spells a s xs \<Longrightarrow> abspath fs s = foldl enter (start fs a) (segs a) @ xs"
  by (simp add: abspath_def spells_def start_def foldl_enter_plain)

lemma destinsrc_plain:
  assumes "plain t" "plain p"
  shows "destinsrc fs (path_join a p) (path_join (path_join a t) p) = (t = p)"
  using abspath_spells [OF spells_join1 [OF assms(2), of a], of fs]
    abspath_spells [OF spells2 [OF assms, of a], of fs]
  by (auto simp: destinsrc_def)

lemma makedirs2:
  assumes "dir_at fs a D" "plain t" "plain p" "nodes fs (D @ [t]) \<noteq> None"
  shows "makedirs fs (path_join (path_join a t) p) = mkdir fs (path_join (path_join a t) p)"
proof -
  have s: "spells a (path_join a t) [t]" by (rule spells_join1 [OF assms(2)])
  then have ps: "path_split (path_join (path_join a t) p) = (path_join a t, p)"
    using path_split_join [of "path_join a t" p] assms(3) by (simp add: spells_def)
  have st: "split_twice (path_join (path_join a t) p) = (path_join a t, p)"
    using plain_facts [OF assms(3)] by (simp add: split_twice_def ps)
  have "exists fs (path_join a t)"
    using assms(4) by (simp add: exists1 [OF assms(1,2)])
  then show ?thesis
    by (subst makedirs.simps) (simp add: st)
qed

lemma src_components:
  "plain p \<Longrightarrow> components (path_join a p) \<noteq> [] \<and> last (components (path_join a p)) = p"
  using components_spells [OF spells_join1, of p a] by simp

lemma last_split_sep2:
  "plain t \<Longrightarrow> plain p \<Longrightarrow> last (split_sep (path_join (path_join a t) p)) = p"
  using spells2 [of t p a] by (simp add: spells_def)

lemma last_split_sep3:
  "plain t \<Longrightarrow> plain p \<Longrightarrow> plain q \<Longrightarrow>
   last (split_sep (path_join (path_join (path_join a t) p) q)) = q"
  using spells3 [of t p q a] by (simp add: spells_def)

lemma move_photo_plain:
  assumes d: "dir_at fs a D" and t: "plain t" and p: "plain p"
    and td: "nodes fs (D @ [t]) \<noteq> None"
  shows "move_photo fs (path_join a p) (path_join (path_join a t) p) = move_plain D t p fs"
proof (cases "nodes fs (D @ [p])")
  case None
  then show ?thesis by (simp add: move_photo_def move_plain_def exists1 [OF d p])
next
  case (Some e)
  have ex: "exists fs (path_join a p)" using Some by (simp add: exists1 [OF d p])
  have ssrc: "stat fs (path_join a p) = Inr (D @ [p], e)"
    using Some by (simp add: stat1 [OF d p])
  have np: "\<not> special p" "p \<noteq> []" using p by (simp_all add: special_def plain_def)
  note facts = stat2 [OF d t p] stat3 [OF d t p p] locate2 [OF d t p] locate3 [OF d t p p]
    ssrc shutil_basename_join [OF p] destinsrc_plain [OF t p] src_components [OF p]
    last_split_sep2 [OF t p] last_split_sep3 [OF t p p] np makedirs2 [OF d t p td]
  note ops = shutil_move_def isdir_def samefile_def exists_def move_to_def os_rename_def
    move_fallback_def is_OSError_def copytree_def copy2_def mkdir_def
  have mp: "move_photo fs (path_join a p) (path_join (path_join a t) p) =
      shutil_move fs (path_join a p) (path_join (path_join a t) p)"
    using ex by (simp add: move_photo_def)
  from td obtain n where tn: "nodes fs (D @ [t]) = Some n" by auto
  show ?thesis
  proof (cases n)
    case (File c)
    then have tp: "t \<noteq> p \<or> e \<noteq> Dir" using tn Some by auto
    have "shutil_move fs (path_join a p) (path_join (path_join a t) p) =
        (fs, Some NotADirectoryError)"
      using tn File tp by (cases e) (auto simp: ops facts)
    then show ?thesis using Some tn File by (simp add: mp move_plain_def)
  next
    case Dir
    show ?thesis
    proof (cases "t = p")
      case True
      then have e: "e = Dir" using Some tn Dir by simp
      note facts' = stat2 [OF d p p] stat3 [OF d p p p] locate2 [OF d p p] locate3 [OF d p p p]
        ssrc shutil_basename_join [OF p] destinsrc_plain [OF p p] src_components [OF p]
        last_split_sep2 [OF p p] last_split_sep3 [OF p p p] np
      have "shutil_move fs (path_join a p) (path_join (path_join a p) p) =
          (fs, Some ShutilError)"
        using e Some
        by (cases "nodes fs (D @ [p, p])")
          (auto simp: ops facts' split: node.splits option.splits)
      then show ?thesis using Some tn Dir True mp by (simp add: move_plain_def)
    next
      case False
      show ?thesis
      proof (cases "nodes fs (D @ [t, p])")
        case None
        have "shutil_move fs (path_join a p) (path_join (path_join a t) p) =
            (renamed fs (D @ [p]) (D @ [t, p]), None)"
          using tn Dir False None by (cases e) (auto simp: ops facts)
        then show ?thesis using Some tn Dir False None by (simp add: mp move_plain_def)
      next
        case dn: (Some m)
        show ?thesis
        proof (cases m)
          case (File c)
          have "shutil_move fs (path_join a p) (path_join (path_join a t) p) =
              (if e = Dir then (fs, Some FileExistsError)
               else (renamed fs (D @ [p]) (D @ [t, p]), None))"
            using tn Dir False dn File by (cases e) (auto simp: ops facts)
          then show ?thesis using Some tn Dir False dn File by (simp add: mp move_plain_def)
        next
          case dd: Dir
          have "shutil_move fs (path_join a p) (path_join (path_join a t) p) =
              (if nodes fs (D @ [t, p, p]) \<noteq> None then (fs, Some ShutilError)
               else (renamed fs (D @ [p]) (D @ [t, p, p]), None))"
            using tn Dir False dn dd
            by (cases e; cases "nodes fs (D @ [t, p, p])") (auto simp: ops facts)
          then show ?thesis using Some tn Dir False dn dd by (simp add: mp move_plain_def)
        qed
      qed
    qed
  qed
qed

lemma dir_at_cong:
  assumes "dir_at fs a D" "cwd fs' = cwd fs" "\<forall>q. prefix q D \<longrightarrow> nodes fs' q = nodes fs q"
  shows "dir_at fs' a D"
  using assms by (auto simp: dir_at_def start_def in_set_prefixes)

lemma dir_at_ensured:
  assumes "dir_at fs a D"
  shows "dir_at (ensured D t fs) a D"
proof (rule dir_at_cong [OF assms])
  show "cwd (ensured D t fs) = cwd fs" by (simp add: ensured_def)
  show "\<forall>q. prefix q D \<longrightarrow> nodes (ensured D t fs) q = nodes fs q"
    by (auto simp: ensured_def)
qed

lemma dir_at_prefix_cwd: "dir_at fs a D \<Longrightarrow> \<not> isabs a \<Longrightarrow> prefix (cwd fs) D"
  by (simp add: dir_at_def start_def)

lemma dir_at_renamed:
  assumes "dir_at fs a D" "\<not> prefix sp D" "\<not> prefix dp D"
  shows "dir_at (renamed fs sp dp) a D"
proof -
  have n: "\<forall>q. prefix q D \<longrightarrow> nodes (renamed fs sp dp) q = nodes fs q"
    using assms(2,3) by (auto simp: renamed_def relocate_def dest: prefix_order.trans)
  show ?thesis
  proof (cases "isabs a")
    case True
    then show ?thesis
      using assms(1) n by (auto simp: dir_at_def start_def in_set_prefixes)
  next
    case False
    then have "prefix (cwd fs) D" using assms(1) by (rule dir_at_prefix_cwd [rotated])
    then have "\<not> prefix sp (cwd fs)" using assms(2) by (auto dest: prefix_order.trans)
    then have "cwd (renamed fs sp dp) = cwd fs" by (simp add: renamed_def)
    then show ?thesis using dir_at_cong [OF assms(1) _ n] by simp
  qed
qed

lemma dir_at_move_plain:
  assumes "dir_at fs a D"
  shows "dir_at (fst (move_plain D t p fs)) a D"
proof -
  have "dir_at (renamed fs (D @ [p]) (D @ [t, p])) a D"
    by (rule dir_at_renamed [OF assms]) auto
  moreover have "dir_at (renamed fs (D @ [p]) (D @ [t, p, p])) a D"
    by (rule dir_at_renamed [OF assms]) auto
  ultimately show ?thesis
    using assms by (auto simp: move_plain_def split: option.splits node.splits)
qed

lemma dir_at_row_plain: "dir_at fs a D \<Longrightarrow> dir_at (fst (row_plain D t p fs)) a D"
  unfolding row_plain_def by (rule dir_at_move_plain [OF dir_at_ensured])

lemma ensured_exists [simp]: "nodes (ensured D t fs) (D @ [t]) \<noteq> None"
  by (simp add: ensured_def)

lemma organize_row_plain:
  assumes "dir_at fs a D" "tc \<in> set cols" "pc \<in> set cols"
    "plain (team_of tc row)" "plain (photo_of pc row)"
  shows "organize_row a tc pc cols row fs = row_plain D (team_of tc row) (photo_of pc row) fs"
proof -
  have e: "ensure_directory fs (path_join a (team_of tc row)) =
      (ensured D (team_of tc row) fs, None)"
    using ensure_plain [OF assms(1,4)] by (simp add: ensured_def)
  have m: "move_photo (ensured D (team_of tc row) fs) (path_join a (photo_of pc row))
        (path_join (path_join a (team_of tc row)) (photo_of pc row)) =
      move_plain D (team_of tc row) (photo_of pc row) (ensured D (team_of tc row) fs)"
    by (rule move_photo_plain [OF dir_at_ensured [OF assms(1)] assms(4,5) ensured_exists])
  show ?thesis
    unfolding organize_row_def row_plain_def
    using assms(2,3) e m by (simp add: getitem_def team_of_def photo_of_def Let_def)
qed

lemma organize_rows_plain:
  assumes "dir_at fs a D" "tc \<in> set cols" "pc \<in> set cols"
    "\<forall>r \<in> set rs. plain (team_of tc r) \<and> plain (photo_of pc r)"
  shows "organize_rows a tc pc cols rs fs = run_plain D (map (names tc pc) rs) fs"
  using assms(1,4)
proof (induction rs arbitrary: fs)
  case Nil
  show ?case by simp
next
  case (Cons r rs)
  have row: "organize_row a tc pc cols r fs = row_plain D (team_of tc r) (photo_of pc r) fs"
    using organize_row_plain [OF Cons.prems(1) assms(2,3)] Cons.prems(2) by simp
  obtain fs1 x where rp: "row_plain D (team_of tc r) (photo_of pc r) fs = (fs1, x)"
    by (cases "row_plain D (team_of tc r) (photo_of pc r) fs") auto
  have d1: "dir_at fs1 a D"
    using dir_at_row_plain [OF Cons.prems(1), of "team_of tc r" "photo_of pc r"] rp by simp
  show ?case
    using Cons.IH [OF d1] Cons.prems(2) row rp
    by (cases x) (simp_all add: names_def)
qed

section \<open>The two front ends\<close>

lemma run_organizer_rows_Cons:
  "run_organizer_rows dir tc pc cols (r # rs) fs =
     (case organize_row dir tc pc cols r fs of
        (fs1, Some e) \<Rightarrow> (fs1, Some e)
      | (fs1, None) \<Rightarrow> run_organizer_rows dir tc pc cols rs fs1)"
proof (cases "getitem cols r tc")
  case (Inl e)
  then show ?thesis by (simp add: organize_row_def)
next
  case tv: (Inr team_value)
  show ?thesis
  proof (cases "getitem cols r pc")
    case (Inl e)
    then show ?thesis using tv by (simp add: organize_row_def)
  next
    case pv: (Inr photo_value)
    obtain fs1 e1 where
      en: "ensure_directory fs (path_join dir (py_strip (py_str team_value))) = (fs1, e1)"
      by (cases "ensure_directory fs (path_join dir (py_strip (py_str team_value)))") auto
    show ?thesis
    proof (cases e1)
      case (Some e)
      then show ?thesis
        using tv pv en by (simp add: organize_row_def ensure_directory_def Let_def)
    next
      case None
      obtain fs2 e2 where
        mv: "move_photo fs1 (path_join dir (py_strip (py_str photo_value)))
               (path_join (path_join dir (py_strip (py_str team_value)))
                  (py_strip (py_str photo_value))) = (fs2, e2)"
        by (cases "move_photo fs1 (path_join dir (py_strip (py_str photo_value)))
               (path_join (path_join dir (py_strip (py_str team_value)))
                  (py_strip (py_str photo_value)))") auto
      have en': "(if \<not> exists fs (path_join dir (py_strip (py_str team_value)))
                  then makedirs fs (path_join dir (py_strip (py_str team_value)))
                  else (fs, None)) = (fs1, None)"
        using en None by (simp add: ensure_directory_def)
      have mv': "(if exists fs1 (path_join dir (py_strip (py_str photo_value)))
                  then shutil_move fs1 (path_join dir (py_strip (py_str photo_value)))
                         (path_join (path_join dir (py_strip (py_str team_value)))
                            (py_strip (py_str photo_value)))
                  else (fs1, None)) = (fs2, e2)"
        using mv by (simp add: move_photo_def)
      have l: "run_organizer_rows dir tc pc cols (r # rs) fs =
          (case e2 of Some e \<Rightarrow> (fs2, Some e)
           | None \<Rightarrow> run_organizer_rows dir tc pc cols rs fs2)"
        unfolding run_organizer_rows.simps tv pv sum.case Let_def en' mv' prod.case option.case
        by (cases e2) simp_all
      have r: "organize_row dir tc pc cols r fs = (fs2, e2)"
        unfolding organize_row_def tv pv sum.case Let_def en None prod.case option.case mv
        by simp
      show ?thesis unfolding l r by (cases e2) simp_all
    qed
  qed
qed

lemma run_organizer_rows_eq:
  "run_organizer_rows dir tc pc cols rs fs = organize_rows dir tc pc cols rs fs"
proof (induction rs arbitrary: fs)
  case Nil
  show ?case by simp
next
  case (Cons r rs)
  show ?case
    unfolding run_organizer_rows_Cons organize_rows.simps
    by (simp add: Cons.IH split: prod.splits option.splits)
qed

text \<open>
  C9. The loop written inline in \<^verbatim>\<open>PhotoOrganizer.run_organizer\<close> (organize-mac.py) and
  \<^verbatim>\<open>organize_photos_by_team\<close> (organize.py) leave the same file system and raise the
  same exception, for every table, every source directory, every pair of column names and
  every file system they start from.
\<close>

theorem front_ends_agree:
  "run_organizer read_csv csv_path image_directory team_col photo_col fs =
   organize_photos_by_team read_csv csv_path image_directory team_col photo_col fs"
  by (simp add: run_organizer_def organize_photos_by_team_def run_organizer_rows_eq
      split: sum.splits)

theorem front_ends_agree_witness:
  "run_organizer (sample_table [sample_row ''Red'' ''a.jpg'', sample_row ''Blue'' ''b.jpg''])
     ''teams.csv'' ''/photos'' ''Team'' ''Photo'' sample_fs =
   organize_photos_by_team
     (sample_table [sample_row ''Red'' ''a.jpg'', sample_row ''Blue'' ''b.jpg''])
     ''teams.csv'' ''/photos'' ''Team'' ''Photo'' sample_fs"
  by (rule front_ends_agree)

section \<open>Evaluating the sample run\<close>

lemmas sample_simps = sample_fs_def blocked_fs_def sample_row_def sample_table_def

lemmas name_simps = plain_def team_of_def photo_of_def names_def py_strip_def isspace_def

lemmas plain_simps = row_plain_def move_plain_def ensured_def renamed_def relocate_def

lemma dir_at_sample: "dir_at sample_fs ''/photos'' [''photos'']"
  by (simp add: dir_at_def start_def isabs_def names_of_def sample_fs_def)

lemma dir_at_blocked: "dir_at blocked_fs ''/photos'' [''photos'']"
  by (simp add: dir_at_def start_def isabs_def names_of_def sample_fs_def blocked_fs_def)

lemma dir_at_album: "dir_at album_fs ''/photos'' [''photos'']"
  by (simp add: dir_at_def start_def isabs_def names_of_def sample_fs_def album_fs_def)

lemma sample_columns:
  "''Team'' \<in> set [''Team'', ''Photo'']" "''Photo'' \<in> set [''Team'', ''Photo'']"
  by simp_all

section \<open>Missing columns\<close>

text \<open>
  C3, as stated, fails on a table without rows: no row is read, so no \<^verbatim>\<open>KeyError\<close> is
  raised and the run ends normally although the team column is missing.
\<close>

theorem missing_column_empty_table:
  "''Team'' \<notin> set [''Name'', ''Photo''] \<and>
   organize_photos_by_team (\<lambda>csv_path. Inr \<lparr>columns = [''Name'', ''Photo''], rows = []\<rparr>)
     ''teams.csv'' ''/photos'' ''Team'' ''Photo'' sample_fs = (sample_fs, None)"
  by (simp add: organize_photos_by_team_def)

text \<open>
  C3, amended. When the team column or the photo column is not among the columns of the
  table, the file system is left as it was; the run raises \<^verbatim>\<open>KeyError\<close> at its first row,
  naming the first of the two columns that is missing, and raises nothing when the table
  has no row.
\<close>

theorem missing_column:
  assumes "read_csv csv_path = Inr df"
    and "team_col \<notin> set (columns df) \<or> photo_col \<notin> set (columns df)"
  shows "organize_photos_by_team read_csv csv_path image_directory team_col photo_col fs =
     (fs, if rows df = [] then None
          else Some (KeyError (if team_col \<notin> set (columns df) then team_col else photo_col)))"
proof (cases "rows df")
  case Nil
  then show ?thesis using assms(1) by (simp add: organize_photos_by_team_def)
next
  case (Cons r rs)
  have "organize_row image_directory team_col photo_col (columns df) r fs =
      (fs, Some (KeyError (if team_col \<notin> set (columns df) then team_col else photo_col)))"
    using assms(2) by (auto simp: organize_row_def getitem_def)
  then show ?thesis using assms(1) Cons by (simp add: organize_photos_by_team_def)
qed

theorem missing_column_witness:
  "organize_photos_by_team
     (\<lambda>csv_path. Inr \<lparr>columns = [''Name'', ''Photo''], rows = [sample_row ''Red'' ''a.jpg'']\<rparr>)
     ''teams.csv'' ''/photos'' ''Team'' ''Photo'' sample_fs =
   (sample_fs, Some (KeyError ''Team''))"
  using missing_column [of "\<lambda>csv_path. Inr \<lparr>columns = [''Name'', ''Photo''],
      rows = [sample_row ''Red'' ''a.jpg'']\<rparr>" "''teams.csv''"
      "\<lparr>columns = [''Name'', ''Photo''], rows = [sample_row ''Red'' ''a.jpg'']\<rparr>"
      "''Team''" "''Photo''" "''/photos''" sample_fs]
  by simp

section \<open>Errors end the run\<close>

lemma organize_rows_append:
  "organize_rows dir tc pc cols (pre @ post) fs =
     (case organize_rows dir tc pc cols pre fs of
        (fs1, Some e) \<Rightarrow> (fs1, Some e)
      | (fs1, None) \<Rightarrow> organize_rows dir tc pc cols post fs1)"
  by (induction pre arbitrary: fs) (auto split: prod.splits option.splits)

text \<open>
  C4. An exception raised while a row is processed is not caught: when the rows before
  it were processed without error, leaving \<open>fs1\<close>, and the row raises \<open>e\<close> leaving
  \<open>fs2\<close>, the whole call raises \<open>e\<close> and leaves \<open>fs2\<close>, whatever rows follow. Nothing is
  rolled back and no later row is looked at.
\<close>

theorem abort_at_first_error:
  assumes "read_csv csv_path = Inr df" and "rows df = pre @ r # post"
    and "organize_rows image_directory team_col photo_col (columns df) pre fs = (fs1, None)"
    and "organize_row image_directory team_col photo_col (columns df) r fs1 = (fs2, Some e)"
  shows "organize_photos_by_team read_csv csv_path image_directory team_col photo_col fs =
     (fs2, Some e)"
  using assms by (simp add: organize_photos_by_team_def organize_rows_append)

text \<open>
  In the directory where \<^verbatim>\<open>Blue\<close> is a regular file, the first row moves \<^verbatim>\<open>a.jpg\<close>, the
  second raises, and the third is never reached: no directory \<^verbatim>\<open>Green\<close> appears.
\<close>

theorem abort_at_first_error_witness:
  "organize_photos_by_team
     (sample_table [sample_row ''Red'' ''a.jpg'', sample_row ''Blue'' ''b.jpg'',
        sample_row ''Green'' ''a.jpg''])
     ''teams.csv'' ''/photos'' ''Team'' ''Photo'' blocked_fs =
   (renamed (ensured [''photos''] ''Red'' blocked_fs) [''photos'', ''a.jpg'']
      [''photos'', ''Red'', ''a.jpg''], Some NotADirectoryError)"
proof -
  let ?F = "renamed (ensured [''photos''] ''Red'' blocked_fs) [''photos'', ''a.jpg'']
      [''photos'', ''Red'', ''a.jpg'']"
  have h1: "organize_rows ''/photos'' ''Team'' ''Photo'' [''Team'', ''Photo'']
      [sample_row ''Red'' ''a.jpg''] blocked_fs = (?F, None)"
    by (subst organize_rows_plain [OF dir_at_blocked sample_columns])
      (simp_all add: name_simps sample_simps plain_simps)
  have d: "dir_at ?F ''/photos'' [''photos'']"
    by (rule dir_at_renamed [OF dir_at_ensured [OF dir_at_blocked]]) simp_all
  have h2: "organize_row ''/photos'' ''Team'' ''Photo'' [''Team'', ''Photo'']
      (sample_row ''Blue'' ''b.jpg'') ?F = (?F, Some NotADirectoryError)"
    by (subst organize_row_plain [OF d sample_columns])
      (simp_all add: name_simps sample_simps plain_simps)
  show ?thesis
    using abort_at_first_error [of
        "sample_table [sample_row ''Red'' ''a.jpg'', sample_row ''Blue'' ''b.jpg'',
           sample_row ''Green'' ''a.jpg'']" "''teams.csv''"
        "\<lparr>columns = [''Team'', ''Photo''], rows = [sample_row ''Red'' ''a.jpg'',
           sample_row ''Blue'' ''b.jpg'', sample_row ''Green'' ''a.jpg'']\<rparr>"
        "[sample_row ''Red'' ''a.jpg'']" "sample_row ''Blue'' ''b.jpg''"
        "[sample_row ''Green'' ''a.jpg'']" "''/photos''" "''Team''" "''Photo''"
        blocked_fs ?F ?F NotADirectoryError]
      h1 h2
    by (simp add: sample_table_def)
qed

section \<open>Rows whose photo is missing\<close>

text \<open>
  C2, as stated, fails: the team directory is created at lines 13 and 14, before line 17
  looks for the photo. A row that names the absent \<^verbatim>\<open>c.jpg\<close> and the new team \<^verbatim>\<open>Red\<close>
  leaves the directory \<^verbatim>\<open>/photos/Red\<close> behind.
\<close>

theorem missing_photo_creates_directory:
  "\<not> exists sample_fs (path_join ''/photos'' ''c.jpg'') \<and>
   nodes sample_fs [''photos'', ''Red''] = None \<and>
   organize_row ''/photos'' ''Team'' ''Photo'' [''Team'', ''Photo'']
     (sample_row ''Red'' ''c.jpg'') sample_fs =
   (sample_fs\<lparr>nodes := (nodes sample_fs)([''photos'', ''Red''] \<mapsto> Dir)\<rparr>, None)"
proof -
  have "\<not> exists sample_fs (path_join ''/photos'' ''c.jpg'')"
    by (subst exists1 [OF dir_at_sample]) (simp_all add: plain_def sample_fs_def)
  moreover have "organize_row ''/photos'' ''Team'' ''Photo'' [''Team'', ''Photo'']
     (sample_row ''Red'' ''c.jpg'') sample_fs =
   (sample_fs\<lparr>nodes := (nodes sample_fs)([''photos'', ''Red''] \<mapsto> Dir)\<rparr>, None)"
    by (subst organize_row_plain [OF dir_at_sample sample_columns])
      (simp_all add: name_simps sample_simps plain_simps)
  ultimately show ?thesis by (simp add: sample_fs_def)
qed

text \<open>
  C2, amended. For plain team and photo names that differ from each other, a row whose
  photo names no existing entry raises no error and moves nothing: the only change it can
  make is to create the team directory, when nothing exists at the team directory's path.
\<close>

theorem missing_photo_row:
  assumes "dir_at fs image_directory D"
    and "team_col \<in> set cols" and "photo_col \<in> set cols"
    and "plain (team_of team_col row)" and "plain (photo_of photo_col row)"
    and "team_of team_col row \<noteq> photo_of photo_col row"
    and "\<not> exists fs (path_join image_directory (photo_of photo_col row))"
  shows "organize_row image_directory team_col photo_col cols row fs =
     (if nodes fs (D @ [team_of team_col row]) = None
      then fs\<lparr>nodes := (nodes fs)(D @ [team_of team_col row] \<mapsto> Dir)\<rparr>
      else fs, None)"
proof -
  have "nodes fs (D @ [photo_of photo_col row]) = None"
    using assms(7) by (simp add: exists1 [OF assms(1,5)])
  then have "nodes (ensured D (team_of team_col row) fs) (D @ [photo_of photo_col row]) = None"
    using assms(6) by (simp add: ensured_def)
  then show ?thesis
    by (simp add: organize_row_plain [OF assms(1-5)] row_plain_def move_plain_def ensured_def)
qed

theorem missing_photo_row_witness:
  "organize_row ''/photos'' ''Team'' ''Photo'' [''Team'', ''Photo'']
     (sample_row ''Blue'' ''c.jpg'') blocked_fs = (blocked_fs, None) \<and>
   nodes blocked_fs [''photos'', ''Blue''] = Some (File ''x'')"
proof -
  have "\<not> exists blocked_fs (path_join ''/photos'' ''c.jpg'')"
    by (subst exists1 [OF dir_at_blocked]) (simp_all add: plain_def sample_simps)
  then show ?thesis
    using missing_photo_row [OF dir_at_blocked sample_columns,
        of "sample_row ''Blue'' ''c.jpg''"]
    by (simp add: name_simps sample_simps)
qed

section \<open>Photos that are directories\<close>

text \<open>
  C10, as stated, fails for a row whose team and photo are the same name: the entry at
  the photo's path is then the team directory itself, \<^verbatim>\<open>shutil.move\<close> refuses to move a
  directory into itself, and the directory stays where it was.
\<close>

theorem directory_into_itself:
  "nodes album_fs [''photos'', ''album''] = Some Dir \<and>
   organize_row ''/photos'' ''Team'' ''Photo'' [''Team'', ''Photo'']
     (sample_row ''album'' ''album'') album_fs = (album_fs, Some ShutilError)"
proof -
  have "organize_row ''/photos'' ''Team'' ''Photo'' [''Team'', ''Photo'']
     (sample_row ''album'' ''album'') album_fs = (album_fs, Some ShutilError)"
    by (subst organize_row_plain [OF dir_at_album sample_columns])
      (simp_all add: name_simps sample_simps plain_simps album_fs_def)
  then show ?thesis by (simp add: album_fs_def)
qed

text \<open>
  C10, amended. Line 17 tests only that something exists at the photo's path. For plain
  team and photo names, when the entry there is a directory and the row raises no error,
  the directory with everything below it has been moved below the team directory, to
  \<open>D/team/photo\<close>, or to \<open>D/team/photo/photo\<close> when \<open>D/team/photo\<close> was a directory
  already, and nothing is left at or below \<open>D/photo\<close>.
\<close>

theorem directory_is_moved:
  assumes "dir_at fs image_directory D"
    and "team_col \<in> set cols" and "photo_col \<in> set cols"
    and "plain (team_of team_col row)" and "plain (photo_of photo_col row)"
    and "nodes fs (D @ [photo_of photo_col row]) = Some Dir"
    and "organize_row image_directory team_col photo_col cols row fs = (fs1, None)"
  shows "(\<forall>q. nodes fs1
            ((if nodes fs (D @ [team_of team_col row, photo_of photo_col row]) = Some Dir
              then D @ [team_of team_col row, photo_of photo_col row, photo_of photo_col row]
              else D @ [team_of team_col row, photo_of photo_col row]) @ q) =
            nodes fs (D @ [photo_of photo_col row] @ q)) \<and>
         (\<forall>q. nodes fs1 (D @ [photo_of photo_col row] @ q) = None)"
proof -
  let ?t = "team_of team_col row" and ?p = "photo_of photo_col row"
  let ?g = "ensured D ?t fs"
  have mp: "move_plain D ?t ?p ?g = (fs1, None)"
    using assms(7) by (simp add: organize_row_plain [OF assms(1-5)] row_plain_def)
  have tp: "?t \<noteq> ?p"
  proof
    assume e: "?t = ?p"
    then have "?g = fs" using assms(6) by (simp add: ensured_def)
    then show False using mp e assms(6) by (simp add: move_plain_def)
  qed
  have g1: "nodes ?g (D @ [?p] @ q) = nodes fs (D @ [?p] @ q)" for q
    using tp by (simp add: ensured_def)
  have g2: "nodes ?g (D @ [?t, ?p]) = nodes fs (D @ [?t, ?p])"
    by (simp add: ensured_def)
  have gp: "nodes ?g (D @ [?p]) = Some Dir" using g1 [of "[]"] assms(6) by simp
  show ?thesis
  proof (cases "nodes fs (D @ [?t, ?p]) = Some Dir")
    case True
    then have "fs1 = renamed ?g (D @ [?p]) (D @ [?t, ?p, ?p])"
      using mp gp g2 tp by (auto simp: move_plain_def split: if_splits)
    then show ?thesis
      using True tp g1 by (auto simp: renamed_def relocate_def)
  next
    case False
    then have "fs1 = renamed ?g (D @ [?p]) (D @ [?t, ?p])"
      using mp gp g2 tp by (auto simp: move_plain_def split: if_splits option.splits node.splits)
    then show ?thesis
      using False tp g1 by (auto simp: renamed_def relocate_def)
  qed
qed

theorem directory_is_moved_witness:
  "snd (organize_row ''/photos'' ''Team'' ''Photo'' [''Team'', ''Photo'']
     (sample_row ''Red'' ''album'') album_fs) = None \<and>
   nodes (fst (organize_row ''/photos'' ''Team'' ''Photo'' [''Team'', ''Photo'']
     (sample_row ''Red'' ''album'') album_fs)) [''photos'', ''Red'', ''album'', ''c.jpg''] =
     Some (File ''C'') \<and>
   nodes (fst (organize_row ''/photos'' ''Team'' ''Photo'' [''Team'', ''Photo'']
     (sample_row ''Red'' ''album'') album_fs)) [''photos'', ''Red'', ''album''] = Some Dir \<and>
   nodes (fst (organize_row ''/photos'' ''Team'' ''Photo'' [''Team'', ''Photo'']
     (sample_row ''Red'' ''album'') album_fs)) [''photos'', ''album'', ''c.jpg''] = None"
proof -
  let ?r = "organize_row ''/photos'' ''Team'' ''Photo'' [''Team'', ''Photo'']
     (sample_row ''Red'' ''album'') album_fs"
  have n: "snd ?r = None"
    by (subst organize_row_plain [OF dir_at_album sample_columns])
      (simp_all add: name_simps sample_simps plain_simps album_fs_def)
  then have r: "?r = (fst ?r, None)" by (metis prod.collapse)
  have t: "team_of ''Team'' (sample_row ''Red'' ''album'') = ''Red''"
    "photo_of ''Photo'' (sample_row ''Red'' ''album'') = ''album''"
    by (simp_all add: name_simps sample_simps)
  have pl: "plain ''Red''" "plain ''album''" by (simp_all add: plain_def)
  have d: "nodes album_fs ([''photos''] @ [''album'']) = Some Dir"
    by (simp add: album_fs_def)
  have m: "(\<forall>q. nodes (fst ?r) ((if nodes album_fs ([''photos''] @ [''Red'', ''album'']) = Some Dir
              then [''photos''] @ [''Red'', ''album'', ''album'']
              else [''photos''] @ [''Red'', ''album'']) @ q) =
            nodes album_fs ([''photos''] @ [''album''] @ q)) \<and>
         (\<forall>q. nodes (fst ?r) ([''photos''] @ [''album''] @ q) = None)"
    using directory_is_moved [OF dir_at_album sample_columns, of "sample_row ''Red'' ''album''"
        "fst ?r"] r pl d
    unfolding t by blast
  have a: "nodes album_fs [''photos'', ''Red'', ''album''] = None"
    by (simp add: album_fs_def sample_fs_def)
  from m a have m1: "\<forall>q. nodes (fst ?r) ([''photos'', ''Red'', ''album''] @ q) =
      nodes album_fs ([''photos'', ''album''] @ q)"
    and m2: "\<forall>q. nodes (fst ?r) ([''photos'', ''album''] @ q) = None"
    by simp_all
  show ?thesis
    using n m1 [rule_format, of "[''c.jpg'']"] m1 [rule_format, of "[]"]
      m2 [rule_format, of "[''c.jpg'']"]
    by (simp add: album_fs_def)
qed

section \<open>Trimmed values\<close>

lemma py_strip_spec:
  assumes "list_all isspace l" "list_all isspace r"
    and "m = [] \<or> (\<not> isspace (hd m) \<and> \<not> isspace (last m))"
  shows "py_strip (l @ m @ r) = m"
proof (cases "m = []")
  case True
  have e: "dropWhile isspace (l @ [] @ r) = []"
    unfolding dropWhile_eq_Nil_conv using assms(1,2) by (auto simp: list_all_iff)
  show ?thesis unfolding True py_strip_def e by simp
next
  case False
  then obtain x xs where m: "m = x # xs" by (cases m) auto
  have hx: "\<not> isspace x" using assms(3) m by simp
  have "dropWhile isspace (l @ m @ r) = m @ r"
    using assms(1) hx m by (simp add: dropWhile_append3 list_all_iff dropWhile_append2)
  moreover obtain ys y where m2: "m = ys @ [y]" using False by (cases m rule: rev_cases) auto
  have hy: "\<not> isspace y" using assms(3) m2 by simp
  have "dropWhile isspace (rev (m @ r)) = rev m"
    using assms(2) hy m2 by (simp add: list_all_iff dropWhile_append3 dropWhile_eq_Nil_conv)
  ultimately show ?thesis by (simp add: py_strip_def)
qed

lemma organize_row_names:
  assumes "team_of tc row' = team_of tc row" "photo_of pc row' = photo_of pc row"
  shows "organize_row dir tc pc cols row' fs = organize_row dir tc pc cols row fs"
  using assms
  by (cases "tc \<in> set cols"; cases "pc \<in> set cols")
    (simp_all add: organize_row_def getitem_def team_of_def photo_of_def)

text \<open>
  C5. A row acts only through the trimmed texts of its team and photo values: two rows
  with the same trimmed texts do the same. The trimmed text of a value is what remains of
  \<^verbatim>\<open>str(value)\<close> when the white space before and after it is taken away. In particular
  the team value \<^verbatim>\<open>" Red "\<close> creates the directory \<^verbatim>\<open>Red\<close> and no directory \<^verbatim>\<open>" Red "\<close>.
\<close>

theorem values_are_stripped:
  "(team_of team_col row' = team_of team_col row \<and>
    photo_of photo_col row' = photo_of photo_col row \<longrightarrow>
      organize_row image_directory team_col photo_col cols row' fs =
      organize_row image_directory team_col photo_col cols row fs) \<and>
   (list_all isspace l \<and> list_all isspace r \<and>
    (m = [] \<or> (\<not> isspace (hd m) \<and> \<not> isspace (last m))) \<longrightarrow>
      (py_str (row team_col) = l @ m @ r \<longrightarrow> team_of team_col row = m) \<and>
      (py_str (row photo_col) = l @ m @ r \<longrightarrow> photo_of photo_col row = m)) \<and>
   nodes (fst (organize_row ''/photos'' ''Team'' ''Photo'' [''Team'', ''Photo'']
     (sample_row '' Red '' ''a.jpg'') sample_fs)) [''photos'', ''Red''] = Some Dir \<and>
   nodes (fst (organize_row ''/photos'' ''Team'' ''Photo'' [''Team'', ''Photo'']
     (sample_row '' Red '' ''a.jpg'') sample_fs)) [''photos'', '' Red ''] = None"
proof -
  have a: "organize_row ''/photos'' ''Team'' ''Photo'' [''Team'', ''Photo'']
     (sample_row '' Red '' ''a.jpg'') sample_fs =
     (renamed (ensured [''photos''] ''Red'' sample_fs) [''photos'', ''a.jpg'']
        [''photos'', ''Red'', ''a.jpg''], None)"
    by (subst organize_row_plain [OF dir_at_sample sample_columns])
      (simp_all add: name_simps sample_simps plain_simps)
  have b: "nodes (renamed (ensured [''photos''] ''Red'' sample_fs) [''photos'', ''a.jpg'']
        [''photos'', ''Red'', ''a.jpg'']) [''photos'', ''Red''] = Some Dir"
    "nodes (renamed (ensured [''photos''] ''Red'' sample_fs) [''photos'', ''a.jpg'']
        [''photos'', ''Red'', ''a.jpg'']) [''photos'', '' Red ''] = None"
    by (simp_all add: sample_simps plain_simps)
  show ?thesis
    using organize_row_names [of team_col row' row photo_col image_directory cols fs]
      py_strip_spec [of l r m] a b
    by (auto simp: team_of_def photo_of_def)
qed

theorem values_are_stripped_witness:
  "team_of ''Team'' (sample_row '' Red '' (CHR 0x09 # ''a.jpg  '')) = ''Red'' \<and>
   photo_of ''Photo'' (sample_row '' Red '' (CHR 0x09 # ''a.jpg  '')) = ''a.jpg'' \<and>
   organize_row ''/photos'' ''Team'' ''Photo'' [''Team'', ''Photo'']
     (sample_row '' Red '' (CHR 0x09 # ''a.jpg  '')) sample_fs =
   organize_row ''/photos'' ''Team'' ''Photo'' [''Team'', ''Photo'']
     (sample_row ''Red'' ''a.jpg'') sample_fs"
proof -
  let ?row = "sample_row '' Red '' (CHR 0x09 # ''a.jpg  '')"
  have t: "team_of ''Team'' ?row = ''Red''"
    using values_are_stripped [of "''Team''" ?row ?row "''Photo''" "''/photos''"
        "[''Team'', ''Photo'']" sample_fs "'' ''" "'' ''" "''Red''"]
    by (simp add: isspace_def sample_row_def)
  have p: "photo_of ''Photo'' ?row = ''a.jpg''"
    using values_are_stripped [of "''Team''" ?row ?row "''Photo''" "''/photos''"
        "[''Team'', ''Photo'']" sample_fs "[CHR 0x09]" "''  ''" "''a.jpg''"]
    by (simp add: isspace_def sample_row_def)
  have "team_of ''Team'' (sample_row ''Red'' ''a.jpg'') = ''Red''"
    "photo_of ''Photo'' (sample_row ''Red'' ''a.jpg'') = ''a.jpg''"
    by (simp_all add: name_simps sample_row_def)
  then show ?thesis
    using t p values_are_stripped [of "''Team''" ?row "sample_row ''Red'' ''a.jpg''" "''Photo''"
        "''/photos''" "[''Team'', ''Photo'']" sample_fs "[]" "[]" "[]"]
    by simp
qed

section \<open>Independent rows\<close>

lemma move_plain_decide:
  "move_plain D t p g =
     (case decide D t p g of Inl e \<Rightarrow> (g, Some e) | Inr m \<Rightarrow> (act D p m g, None))"
  by (simp add: move_plain_def decide_def act_def split: option.splits node.splits)

lemma row_plain_decide:
  "row_plain D t p fs =
     (case decide D t p (ensured D t fs) of
        Inl e \<Rightarrow> (ensured D t fs, Some e)
      | Inr m \<Rightarrow> (act D p m (ensured D t fs), None))"
  by (simp add: row_plain_def move_plain_decide)

lemma decide_target:
  "decide D t p g = Inr (Some d) \<Longrightarrow> t \<noteq> p \<and> (d = D @ [t, p] \<or> d = D @ [t, p, p])"
  by (auto simp: decide_def split: option.splits node.splits if_splits)

lemma decide_cong:
  assumes "nodes g' (D @ [p]) = nodes g (D @ [p])" "nodes g' (D @ [t]) = nodes g (D @ [t])"
    "nodes g' (D @ [t, p]) = nodes g (D @ [t, p])"
    "nodes g' (D @ [t, p, p]) = nodes g (D @ [t, p, p])"
  shows "decide D t p g' = decide D t p g"
  unfolding decide_def assms by (rule refl)

lemma nodes_ensured:
  "nodes (ensured D t fs) q =
     (if q = D @ [t] \<and> nodes fs q = None then Some Dir else nodes fs q)"
  by (auto simp: ensured_def)

lemma cwd_ensured [simp]: "cwd (ensured D t fs) = cwd fs"
  by (simp add: ensured_def)

lemma nodes_renamed_frame:
  "\<not> prefix dp q \<Longrightarrow> \<not> prefix sp q \<Longrightarrow> nodes (renamed g sp dp) q = nodes g q"
  by (simp add: renamed_def relocate_def)

lemma fsys_eqI: "nodes (a::fsys) = nodes b \<Longrightarrow> cwd a = cwd b \<Longrightarrow> a = b"
  by simp

lemma ensured_commute: "ensured D a (ensured D b fs) = ensured D b (ensured D a fs)"
  by (rule fsys_eqI) (auto simp: nodes_ensured fun_eq_iff)

lemma ensured_renamed:
  assumes "\<not> prefix sp (D @ [t])" "\<not> prefix dp (D @ [t])" "\<forall>r. sp @ r \<noteq> D @ [t]"
  shows "ensured D t (renamed g sp dp) = renamed (ensured D t g) sp dp"
proof (rule fsys_eqI)
  have n: "nodes (renamed g sp dp) (D @ [t]) = nodes g (D @ [t])"
    using assms by (simp add: nodes_renamed_frame)
  show "nodes (ensured D t (renamed g sp dp)) = nodes (renamed (ensured D t g) sp dp)"
  proof
    fix q
    show "nodes (ensured D t (renamed g sp dp)) q = nodes (renamed (ensured D t g) sp dp) q"
      using assms n
      by (auto simp: nodes_ensured renamed_def relocate_def)
  qed
  show "cwd (ensured D t (renamed g sp dp)) = cwd (renamed (ensured D t g) sp dp)"
    by (simp add: renamed_def)
qed

lemma under_cases: "prefix a (b @ r) \<Longrightarrow> prefix a b \<or> prefix b a"
  by (metis prefix_same_cases prefixI)

lemma relocate_commute:
  assumes "s1 \<parallel> s2" "s1 \<parallel> d2" "d1 \<parallel> s2" "d1 \<parallel> d2"
  shows "relocate (relocate nd s1 d1) s2 d2 = relocate (relocate nd s2 d2) s1 d1"
proof
  fix q
  have c: "\<not> (prefix s1 q \<and> prefix s2 q)" "\<not> (prefix s1 q \<and> prefix d2 q)"
    "\<not> (prefix d1 q \<and> prefix s2 q)" "\<not> (prefix d1 q \<and> prefix d2 q)"
    using assms by (auto simp: parallel_def dest: prefix_same_cases)
  have u: "\<not> prefix d1 (s2 @ r)" "\<not> prefix s1 (s2 @ r)" "\<not> prefix d2 (s1 @ r)"
    "\<not> prefix s2 (s1 @ r)" for r
    using assms by (auto simp: parallel_def dest: under_cases)
  show "relocate (relocate nd s1 d1) s2 d2 q = relocate (relocate nd s2 d2) s1 d1 q"
    using c u by (auto simp: relocate_def)
qed

lemma renamed_commute:
  assumes "s1 \<parallel> s2" "s1 \<parallel> d2" "d1 \<parallel> s2" "d1 \<parallel> d2"
  shows "renamed (renamed g s1 d1) s2 d2 = renamed (renamed g s2 d2) s1 d1"
proof (rule fsys_eqI)
  show "nodes (renamed (renamed g s1 d1) s2 d2) = nodes (renamed (renamed g s2 d2) s1 d1)"
    using relocate_commute [OF assms] by (simp add: renamed_def)
  have c: "\<not> (prefix s1 (cwd g) \<and> prefix s2 (cwd g))"
    using assms by (auto simp: parallel_def dest: prefix_same_cases)
  have u: "\<not> prefix s2 (d1 @ r)" "\<not> prefix s1 (d2 @ r)" for r
    using assms by (auto simp: parallel_def dest: under_cases)
  show "cwd (renamed (renamed g s1 d1) s2 d2) = cwd (renamed (renamed g s2 d2) s1 d1)"
    using c u by (auto simp: renamed_def)
qed

lemma decide_lands: "decide D t p g = Inr m \<Longrightarrow> lands D t p m"
  using decide_target [of D t p g] by (cases m) (auto simp: lands_def)

lemma nodes_act_frame:
  assumes "lands D t p m" "\<not> prefix (D @ [p]) q" "\<not> prefix (D @ [t, p]) q"
  shows "nodes (act D p m g) q = nodes g q"
proof (cases m)
  case None
  then show ?thesis by (simp add: act_def)
next
  case (Some d)
  then have "d = D @ [t, p] \<or> d = D @ [t, p, p]" using assms(1) by (simp add: lands_def)
  moreover have "D @ [t, p, p] = (D @ [t, p]) @ [p]" by simp
  ultimately have "\<not> prefix d q" using assms(3) by (metis append_prefixD)
  then show ?thesis using Some assms(2) by (simp add: act_def nodes_renamed_frame)
qed

lemma nodes_ensured_same:
  "q \<noteq> D @ [t] \<or> nodes g q \<noteq> None \<Longrightarrow> nodes (ensured D t g) q = nodes g q"
  by (auto simp: nodes_ensured)

lemma ensured_act:
  assumes "lands D t p m" "t' \<noteq> p"
  shows "ensured D t' (act D p m g) = act D p m (ensured D t' g)"
proof (cases m)
  case None
  then show ?thesis by (simp add: act_def)
next
  case (Some d)
  then have d: "d = D @ [t, p] \<or> d = D @ [t, p, p]" using assms(1) by (simp add: lands_def)
  have "ensured D t' (renamed g (D @ [p]) d) = renamed (ensured D t' g) (D @ [p]) d"
    by (rule ensured_renamed) (use d assms(2) in auto)
  then show ?thesis using Some by (simp add: act_def)
qed

lemma act_commute:
  assumes "lands D t1 p1 m1" "lands D t2 p2 m2" "p1 \<noteq> p2" "t1 \<noteq> p2" "t2 \<noteq> p1"
  shows "act D p2 m2 (act D p1 m1 g) = act D p1 m1 (act D p2 m2 g)"
proof (cases m1)
  case None
  then show ?thesis by (simp add: act_def)
next
  case s1: (Some d1)
  show ?thesis
  proof (cases m2)
    case None
    then show ?thesis by (simp add: act_def)
  next
    case s2: (Some d2)
    have d1: "t1 \<noteq> p1" "d1 = D @ [t1, p1] \<or> d1 = D @ [t1, p1, p1]"
      using assms(1) s1 by (simp_all add: lands_def)
    have d2: "t2 \<noteq> p2" "d2 = D @ [t2, p2] \<or> d2 = D @ [t2, p2, p2]"
      using assms(2) s2 by (simp_all add: lands_def)
    have "renamed (renamed g (D @ [p1]) d1) (D @ [p2]) d2 =
        renamed (renamed g (D @ [p2]) d2) (D @ [p1]) d1"
      by (rule renamed_commute) (use d1 d2 assms(3-5) in \<open>auto simp: parallel_def\<close>)
    then show ?thesis using s1 s2 by (simp add: act_def)
  qed
qed

lemma decide_after:
  assumes "p1 \<noteq> p2" "t1 \<noteq> p2" "t2 \<noteq> p1" "lands D t1 p1 m1"
  shows "decide D t2 p2 (ensured D t2 (act D p1 m1 (ensured D t1 fs))) =
         decide D t2 p2 (ensured D t2 fs)"
proof -
  have e: "ensured D t2 (act D p1 m1 (ensured D t1 fs)) =
      act D p1 m1 (ensured D t1 (ensured D t2 fs))"
    using ensured_act [OF assms(4,3)] by (simp add: ensured_commute)
  have n: "nodes (act D p1 m1 (ensured D t1 (ensured D t2 fs))) q =
      nodes (ensured D t2 fs) q"
    if "\<not> prefix (D @ [p1]) q" "\<not> prefix (D @ [t1, p1]) q"
      "q \<noteq> D @ [t1] \<or> nodes (ensured D t2 fs) q \<noteq> None" for q
    using nodes_act_frame [OF assms(4) that(1,2), of "ensured D t1 (ensured D t2 fs)"]
      nodes_ensured_same [OF that(3)]
    by simp
  show ?thesis
    unfolding e
    by (rule decide_cong; rule n) (use assms(1-3) in \<open>auto simp: nodes_ensured\<close>)
qed

lemma row_swap:
  assumes "p1 \<noteq> p2" "t1 \<noteq> p2" "t2 \<noteq> p1"
    and "row_plain D t1 p1 fs = (fs1, None)" and "row_plain D t2 p2 fs1 = (fs2, None)"
  shows "\<exists>g. row_plain D t2 p2 fs = (g, None) \<and> row_plain D t1 p1 g = (fs2, None)"
proof -
  obtain m1 where m1: "decide D t1 p1 (ensured D t1 fs) = Inr m1"
    and fs1: "fs1 = act D p1 m1 (ensured D t1 fs)"
    using assms(4) by (auto simp: row_plain_decide split: sum.splits)
  obtain m2 where m2: "decide D t2 p2 (ensured D t2 fs1) = Inr m2"
    and fs2: "fs2 = act D p2 m2 (ensured D t2 fs1)"
    using assms(5) by (auto simp: row_plain_decide split: sum.splits)
  have l1: "lands D t1 p1 m1" by (rule decide_lands [OF m1])
  have l2: "lands D t2 p2 m2" by (rule decide_lands [OF m2])
  have a: "decide D t2 p2 (ensured D t2 fs) = Inr m2"
    using decide_after [OF assms(1-3) l1, of fs] m2 fs1 by simp
  let ?g = "act D p2 m2 (ensured D t2 fs)"
  have r2: "row_plain D t2 p2 fs = (?g, None)"
    by (simp add: row_plain_decide a)
  have b: "decide D t1 p1 (ensured D t1 ?g) = Inr m1"
    using decide_after [OF assms(1) [symmetric] assms(3,2) l2, of fs] m1 by simp
  have "act D p1 m1 (ensured D t1 ?g) = fs2"
    unfolding fs2 fs1
    using ensured_act [OF l2 assms(2), of "ensured D t2 fs"]
      ensured_act [OF l1 assms(3), of "ensured D t1 fs"]
      act_commute [OF l1 l2 assms(1-3)]
    by (simp add: ensured_commute)
  then have "row_plain D t1 p1 ?g = (fs2, None)"
    by (simp add: row_plain_decide b)
  then show ?thesis using r2 by blast
qed

lemma apart_subset: "A \<subseteq> B \<Longrightarrow> apart B \<Longrightarrow> apart A"
  unfolding apart_def by blast

lemma run_front:
  assumes "(t, p) \<in> set tps" "distinct (map snd tps)" "apart (set tps)"
    "run_plain D tps fs = (fs', None)"
  shows "run_plain D ((t, p) # remove1 (t, p) tps) fs = (fs', None)"
  using assms
proof (induction tps arbitrary: fs)
  case Nil
  then show ?case by simp
next
  case (Cons x xs)
  obtain t0 p0 where x: "x = (t0, p0)" by (cases x) auto
  show ?case
  proof (cases "x = (t, p)")
    case True
    then show ?thesis using Cons.prems(4) by simp
  next
    case False
    then have mem: "(t, p) \<in> set xs" using Cons.prems(1) by auto
    obtain fs1 where r0: "row_plain D t0 p0 fs = (fs1, None)"
      and rest: "run_plain D xs fs1 = (fs', None)"
      using Cons.prems(4) x by (auto split: prod.splits option.splits)
    have ap: "apart (set xs)" by (rule apart_subset [OF _ Cons.prems(3)]) auto
    have "run_plain D ((t, p) # remove1 (t, p) xs) fs1 = (fs', None)"
      using Cons.IH [OF mem _ ap rest] Cons.prems(2) by simp
    then obtain fs2 where r1: "row_plain D t p fs1 = (fs2, None)"
      and rest2: "run_plain D (remove1 (t, p) xs) fs2 = (fs', None)"
      by (auto split: prod.splits option.splits)
    have ne: "p0 \<noteq> p" "t0 \<noteq> p" "t \<noteq> p0"
      using Cons.prems(2,3) mem x by (auto simp: apart_def image_iff)
    obtain g where g: "row_plain D t p fs = (g, None)" "row_plain D t0 p0 g = (fs2, None)"
      using row_swap [OF ne r0 r1] by blast
    show ?thesis using False x g rest2 by auto
  qed
qed

lemma distinct_map_remove1: "distinct (map f xs) \<Longrightarrow> distinct (map f (remove1 x xs))"
proof (induction xs)
  case Nil
  then show ?case by simp
next
  case (Cons y ys)
  have "f ` set (remove1 x ys) \<subseteq> f ` set ys" using set_remove1_subset [of x ys] by blast
  then show ?case using Cons by auto
qed

lemma run_perm:
  assumes "mset tps' = mset tps" "distinct (map snd tps)" "apart (set tps)"
    "run_plain D tps fs = (fs', None)"
  shows "run_plain D tps' fs = (fs', None)"
  using assms
proof (induction tps' arbitrary: tps fs)
  case Nil
  then show ?case by simp
next
  case (Cons x xs)
  obtain t p where x: "x = (t, p)" by (cases x) auto
  have mem: "(t, p) \<in> set tps"
    using Cons.prems(1) x by (metis list.set_intros(1) set_mset_mset)
  have "run_plain D ((t, p) # remove1 (t, p) tps) fs = (fs', None)"
    by (rule run_front [OF mem Cons.prems(2,3,4)])
  then obtain fs1 where r: "row_plain D t p fs = (fs1, None)"
    and rest: "run_plain D (remove1 (t, p) tps) fs1 = (fs', None)"
    by (auto split: prod.splits option.splits)
  have m: "mset xs = mset (remove1 (t, p) tps)"
    using Cons.prems(1) x by (metis mset_remove1 add_mset_remove_trivial mset.simps(2))
  have d: "distinct (map snd (remove1 (t, p) tps))"
    by (rule distinct_map_remove1 [OF Cons.prems(2)])
  have a: "apart (set (remove1 (t, p) tps))"
    by (rule apart_subset [OF set_remove1_subset Cons.prems(3)])
  show ?case using Cons.IH [OF m d a rest] r x by simp
qed

section \<open>The order of the rows\<close>

lemma apart_names:
  assumes "set (map (team_of tc) rs) \<inter> set (map (photo_of pc) rs) = {}"
  shows "apart (set (map (names tc pc) rs))"
  using assms unfolding apart_def names_def by auto

lemma snd_names: "map snd (map (names tc pc) rs) = map (photo_of pc) rs"
  by (simp add: names_def)

text \<open>
  C8, as stated, fails: an exception ends the run, so the rows that were processed
  depend on the order. Where \<^verbatim>\<open>Blue\<close> is a regular file, the row for team Blue raises; the
  row for team Red moves \<^verbatim>\<open>a.jpg\<close> when it comes first and is never reached when it
  comes second. The two rows name distinct photos.
\<close>

theorem order_matters_on_error:
  "distinct [''a.jpg'', ''b.jpg''] \<and>
   nodes (fst (organize_photos_by_team
       (sample_table [sample_row ''Red'' ''a.jpg'', sample_row ''Blue'' ''b.jpg''])
       ''teams.csv'' ''/photos'' ''Team'' ''Photo'' blocked_fs))
     [''photos'', ''Red'', ''a.jpg''] = Some (File ''A'') \<and>
   nodes (fst (organize_photos_by_team
       (sample_table [sample_row ''Blue'' ''b.jpg'', sample_row ''Red'' ''a.jpg''])
       ''teams.csv'' ''/photos'' ''Team'' ''Photo'' blocked_fs))
     [''photos'', ''Red'', ''a.jpg''] = None"
proof -
  have a: "organize_rows ''/photos'' ''Team'' ''Photo'' [''Team'', ''Photo'']
      [sample_row ''Red'' ''a.jpg'', sample_row ''Blue'' ''b.jpg''] blocked_fs =
      (renamed (ensured [''photos''] ''Red'' blocked_fs) [''photos'', ''a.jpg'']
        [''photos'', ''Red'', ''a.jpg''], Some NotADirectoryError)"
    by (subst organize_rows_plain [OF dir_at_blocked sample_columns])
      (simp_all add: name_simps sample_simps plain_simps)
  have b: "organize_rows ''/photos'' ''Team'' ''Photo'' [''Team'', ''Photo'']
      [sample_row ''Blue'' ''b.jpg'', sample_row ''Red'' ''a.jpg''] blocked_fs =
      (blocked_fs, Some NotADirectoryError)"
    by (subst organize_rows_plain [OF dir_at_blocked sample_columns])
      (simp_all add: name_simps sample_simps plain_simps)
  show ?thesis
    by (simp add: organize_photos_by_team_def sample_table_def a b del: organize_rows.simps)
      (simp add: sample_simps plain_simps)
qed

text \<open>
  The order also matters without any error when a photo value names a team directory:
  the row that moves the directory \<^verbatim>\<open>T\<close> takes along what an earlier row put into it.
\<close>

lemma order_matters_when_photo_is_team:
  "organize_photos_by_team
       (sample_table [sample_row ''T'' ''a.jpg'', sample_row ''U'' ''T''])
       ''teams.csv'' ''/photos'' ''Team'' ''Photo'' sample_fs =
     (renamed (ensured [''photos''] ''U''
        (renamed (ensured [''photos''] ''T'' sample_fs) [''photos'', ''a.jpg'']
           [''photos'', ''T'', ''a.jpg'']))
        [''photos'', ''T''] [''photos'', ''U'', ''T''], None) \<and>
   organize_photos_by_team
       (sample_table [sample_row ''U'' ''T'', sample_row ''T'' ''a.jpg''])
       ''teams.csv'' ''/photos'' ''Team'' ''Photo'' sample_fs =
     (renamed (ensured [''photos''] ''T'' (ensured [''photos''] ''U'' sample_fs))
        [''photos'', ''a.jpg''] [''photos'', ''T'', ''a.jpg''], None)"
proof -
  have a: "organize_rows ''/photos'' ''Team'' ''Photo'' [''Team'', ''Photo'']
      [sample_row ''T'' ''a.jpg'', sample_row ''U'' ''T''] sample_fs =
     (renamed (ensured [''photos''] ''U''
        (renamed (ensured [''photos''] ''T'' sample_fs) [''photos'', ''a.jpg'']
           [''photos'', ''T'', ''a.jpg'']))
        [''photos'', ''T''] [''photos'', ''U'', ''T''], None)"
    by (subst organize_rows_plain [OF dir_at_sample sample_columns])
      (simp_all add: name_simps sample_simps plain_simps)
  have b: "organize_rows ''/photos'' ''Team'' ''Photo'' [''Team'', ''Photo'']
      [sample_row ''U'' ''T'', sample_row ''T'' ''a.jpg''] sample_fs =
     (renamed (ensured [''photos''] ''T'' (ensured [''photos''] ''U'' sample_fs))
        [''photos'', ''a.jpg''] [''photos'', ''T'', ''a.jpg''], None)"
    by (subst organize_rows_plain [OF dir_at_sample sample_columns])
      (simp_all add: name_simps sample_simps plain_simps)
  show ?thesis
    by (simp add: organize_photos_by_team_def sample_table_def a b del: organize_rows.simps)
qed

text \<open>
  C8, amended. For plain team and photo names, pairwise distinct photo names and no team
  name that is also a photo name: when the run over the rows ends without error, the run
  over any permutation of the rows ends without error in the same file system.
\<close>

theorem order_of_rows:
  assumes "dir_at fs image_directory D"
    and "read_csv csv_path = Inr df" and "read_csv' csv_path' = Inr df'"
    and "columns df' = columns df" and "mset (rows df') = mset (rows df)"
    and "team_col \<in> set (columns df)" and "photo_col \<in> set (columns df)"
    and "\<forall>r \<in> set (rows df). plain (team_of team_col r) \<and> plain (photo_of photo_col r)"
    and "distinct (map (photo_of photo_col) (rows df))"
    and "set (map (team_of team_col) (rows df)) \<inter> set (map (photo_of photo_col) (rows df)) = {}"
    and "organize_photos_by_team read_csv csv_path image_directory team_col photo_col fs =
           (fs', None)"
  shows "organize_photos_by_team read_csv' csv_path' image_directory team_col photo_col fs =
           (fs', None)"
proof -
  have s: "set (rows df') = set (rows df)" using assms(5) by (metis set_mset_mset)
  have r1: "run_plain D (map (names team_col photo_col) (rows df)) fs = (fs', None)"
    using assms(11) organize_rows_plain [OF assms(1,6,7,8)] assms(2)
    by (simp add: organize_photos_by_team_def)
  have m: "mset (map (names team_col photo_col) (rows df')) =
      mset (map (names team_col photo_col) (rows df))"
    using assms(5) by (metis mset_map)
  have "run_plain D (map (names team_col photo_col) (rows df')) fs = (fs', None)"
    by (rule run_perm [OF m _ apart_names [OF assms(10)] r1])
      (unfold snd_names, rule assms(9))
  moreover have "organize_rows image_directory team_col photo_col (columns df') (rows df') fs =
      run_plain D (map (names team_col photo_col) (rows df')) fs"
    by (rule organize_rows_plain [OF assms(1)]) (use assms(4,6,7,8) s in auto)
  ultimately show ?thesis using assms(3) by (simp add: organize_photos_by_team_def)
qed

theorem order_of_rows_witness:
  "organize_photos_by_team
       (sample_table [sample_row ''Blue'' ''b.jpg'', sample_row ''Red'' ''a.jpg''])
       ''teams.csv'' ''/photos'' ''Team'' ''Photo'' sample_fs =
   (renamed (ensured [''photos''] ''Blue''
      (renamed (ensured [''photos''] ''Red'' sample_fs) [''photos'', ''a.jpg'']
         [''photos'', ''Red'', ''a.jpg'']))
      [''photos'', ''b.jpg''] [''photos'', ''Blue'', ''b.jpg''], None)"
proof -
  let ?F = "renamed (ensured [''photos''] ''Blue''
      (renamed (ensured [''photos''] ''Red'' sample_fs) [''photos'', ''a.jpg'']
         [''photos'', ''Red'', ''a.jpg'']))
      [''photos'', ''b.jpg''] [''photos'', ''Blue'', ''b.jpg'']"
  let ?df = "\<lparr>columns = [''Team'', ''Photo''],
      rows = [sample_row ''Red'' ''a.jpg'', sample_row ''Blue'' ''b.jpg'']\<rparr>"
  let ?df' = "\<lparr>columns = [''Team'', ''Photo''],
      rows = [sample_row ''Blue'' ''b.jpg'', sample_row ''Red'' ''a.jpg'']\<rparr>"
  have a: "organize_rows ''/photos'' ''Team'' ''Photo'' [''Team'', ''Photo'']
      [sample_row ''Red'' ''a.jpg'', sample_row ''Blue'' ''b.jpg''] sample_fs = (?F, None)"
    by (subst organize_rows_plain [OF dir_at_sample sample_columns])
      (simp_all add: name_simps sample_simps plain_simps)
  have run: "organize_photos_by_team
      (sample_table [sample_row ''Red'' ''a.jpg'', sample_row ''Blue'' ''b.jpg''])
      ''teams.csv'' ''/photos'' ''Team'' ''Photo'' sample_fs = (?F, None)"
    by (simp add: organize_photos_by_team_def sample_table_def a del: organize_rows.simps)
  show ?thesis
  proof (rule order_of_rows [OF dir_at_sample, where df = ?df and df' = ?df'
        and read_csv = "sample_table [sample_row ''Red'' ''a.jpg'', sample_row ''Blue'' ''b.jpg'']"
        and csv_path = "''teams.csv''"])
    show "organize_photos_by_team
      (sample_table [sample_row ''Red'' ''a.jpg'', sample_row ''Blue'' ''b.jpg''])
      ''teams.csv'' ''/photos'' ''Team'' ''Photo'' sample_fs = (?F, None)"
      by (rule run)
  qed (simp_all add: sample_table_def name_simps sample_row_def)
qed

section \<open>Rows that were carried out before\<close>

text \<open>
  A row is settled in a state when its team directory exists and nothing exists at its
  photo path. A row that ends without an exception is settled afterwards, a settled row
  changes nothing, and rows whose teams are no photo names keep one another settled.
\<close>

lemma nodes_act_source:
  assumes "lands D t p m" "nodes g (D @ [q]) = None"
  shows "nodes (act D p m g) (D @ [q]) = None"
proof (cases m)
  case None
  then show ?thesis using assms(2) by (simp add: act_def)
next
  case (Some d)
  then have "d = D @ [t, p] \<or> d = D @ [t, p, p]" using assms(1) by (simp add: lands_def)
  then have "\<not> prefix d (D @ [q])" by auto
  then show ?thesis using Some assms(2) by (simp add: act_def renamed_def relocate_def)
qed

lemma row_settles:
  assumes "row_plain D t p fs = (fs1, None)"
  shows "settled D fs1 (t, p)"
proof -
  let ?g = "ensured D t fs"
  obtain m where m: "decide D t p ?g = Inr m" and fs1: "fs1 = act D p m ?g"
    using assms by (auto simp: row_plain_decide split: sum.splits)
  have l: "lands D t p m" by (rule decide_lands [OF m])
  show ?thesis
  proof (cases m)
    case None
    then have "nodes ?g (D @ [p]) = None"
      using m by (auto simp: decide_def split: option.splits if_splits node.splits)
    then show ?thesis using None fs1 by (simp add: settled_def act_def nodes_ensured)
  next
    case (Some d)
    then have tp: "t \<noteq> p" and d: "d = D @ [t, p] \<or> d = D @ [t, p, p]"
      using l by (simp_all add: lands_def)
    have "nodes fs1 (D @ [t]) = nodes ?g (D @ [t])"
      unfolding fs1 by (rule nodes_act_frame [OF l]) (use tp in auto)
    moreover have "nodes fs1 (D @ [p]) = None"
      using d by (auto simp: fs1 Some act_def renamed_def relocate_def)
    ultimately show ?thesis by (simp add: settled_def nodes_ensured)
  qed
qed

lemma settled_row:
  assumes "settled D fs (t, p)"
  shows "row_plain D t p fs = (fs, None)"
proof -
  have "ensured D t fs = fs" using assms by (auto simp: settled_def ensured_def)
  then show ?thesis using assms by (simp add: row_plain_def move_plain_def settled_def)
qed

lemma row_keeps_settled:
  assumes "settled D fs (t, p)" "row_plain D t' p' fs = (fs1, x)" "t' \<noteq> p" "t \<noteq> p'"
  shows "settled D fs1 (t, p)"
proof -
  let ?g = "ensured D t' fs"
  have g: "nodes ?g (D @ [t]) \<noteq> None" "nodes ?g (D @ [p]) = None"
    using assms(1,3) by (auto simp: settled_def nodes_ensured)
  show ?thesis
  proof (cases "decide D t' p' ?g")
    case (Inl e)
    then have "fs1 = ?g" using assms(2) by (simp add: row_plain_decide)
    then show ?thesis using g by (simp add: settled_def)
  next
    case (Inr m)
    then have fs1: "fs1 = act D p' m ?g" using assms(2) by (simp add: row_plain_decide)
    have l: "lands D t' p' m" by (rule decide_lands [OF Inr])
    have "nodes fs1 (D @ [t]) = nodes ?g (D @ [t])"
      unfolding fs1 by (rule nodes_act_frame [OF l]) (use assms(4) in auto)
    moreover have "nodes fs1 (D @ [p]) = None"
      unfolding fs1 by (rule nodes_act_source [OF l g(2)])
    ultimately show ?thesis using g by (simp add: settled_def)
  qed
qed

lemma ensured_idem [simp]: "ensured D t (ensured D t fs) = ensured D t fs"
  by (simp add: ensured_def)

lemma row_error_again:
  assumes "row_plain D t p fs = (fs1, Some e)"
  shows "row_plain D t p fs1 = (fs1, Some e)"
proof -
  have "fs1 = ensured D t fs" "decide D t p (ensured D t fs) = Inl e"
    using assms by (auto simp: row_plain_decide split: sum.splits)
  then show ?thesis by (simp add: row_plain_decide)
qed

lemma run_again:
  assumes "apart (S \<union> set tps)" "\<forall>s \<in> S. settled D fs s" "run_plain D tps fs = (fs', x)"
  shows "(\<forall>s \<in> S. settled D fs' s) \<and> run_plain D tps fs' = (fs', x)"
  using assms
proof (induction tps arbitrary: fs S)
  case Nil
  then show ?case by simp
next
  case (Cons r rs)
  obtain t p where r: "r = (t, p)" by (cases r) auto
  obtain fs1 y where row: "row_plain D t p fs = (fs1, y)"
    by (cases "row_plain D t p fs") auto
  have keep: "settled D fs1 s" if "s \<in> S" for s
  proof -
    obtain t' p' where s: "s = (t', p')" by (cases s) auto
    have "t \<noteq> p'" "t' \<noteq> p"
      using Cons.prems(1) that s r unfolding apart_def by auto
    then show ?thesis
      using row_keeps_settled [OF _ row] Cons.prems(2) that s by blast
  qed
  show ?case
  proof (cases y)
    case (Some e)
    then have "fs' = fs1" "x = Some e" using Cons.prems(3) r row by auto
    then show ?thesis using keep row_error_again [of D t p fs fs1 e] row Some r by simp
  next
    case None
    then have rest: "run_plain D rs fs1 = (fs', x)" using Cons.prems(3) r row by simp
    have st: "settled D fs1 (t, p)" using row_settles row None by blast
    have ap: "apart (insert (t, p) S \<union> set rs)"
      using Cons.prems(1) r by (simp add: Un_commute insert_commute Un_insert_left)
    have ih: "(\<forall>s \<in> insert (t, p) S. settled D fs' s) \<and> run_plain D rs fs' = (fs', x)"
      by (rule Cons.IH [OF ap _ rest]) (use st keep in auto)
    then have "row_plain D t p fs' = (fs', None)" using settled_row by blast
    then show ?thesis using ih r by simp
  qed
qed

section \<open>Where the photos end up\<close>

text \<open>
  The source directory stays in place during a run, a row changes nothing outside its own
  team directory and photo path, and a row that ends without an exception has moved its
  photo.
\<close>

lemma dir_at_run: "dir_at fs a D \<Longrightarrow> dir_at (fst (run_plain D tps fs)) a D"
proof (induction tps arbitrary: fs)
  case Nil
  then show ?case by simp
next
  case (Cons r rs)
  obtain t p where r: "r = (t, p)" by (cases r) auto
  obtain fs1 y where row: "row_plain D t p fs = (fs1, y)"
    by (cases "row_plain D t p fs") auto
  have d: "dir_at fs1 a D" using dir_at_row_plain [OF Cons.prems, of t p] row by simp
  show ?case using Cons.IH [OF d] d r row by (cases y) simp_all
qed

lemma row_frame:
  assumes "row_plain D t p fs = (fs1, x)" "q \<noteq> D @ [t]" "\<not> prefix (D @ [p]) q"
    "\<not> prefix (D @ [t, p]) q"
  shows "nodes fs1 q = nodes fs q"
proof (cases "decide D t p (ensured D t fs)")
  case (Inl e)
  then have "fs1 = ensured D t fs" using assms(1) by (simp add: row_plain_decide)
  then show ?thesis using assms(2) by (simp add: nodes_ensured)
next
  case (Inr m)
  then have "fs1 = act D p m (ensured D t fs)" using assms(1) by (simp add: row_plain_decide)
  then show ?thesis
    using nodes_act_frame [OF decide_lands [OF Inr] assms(3,4)] assms(2)
    by (simp add: nodes_ensured)
qed

lemma run_frame:
  assumes "run_plain D tps fs = (fs', x)"
    "\<forall>(t, p) \<in> set tps. q \<noteq> D @ [t] \<and> \<not> prefix (D @ [p]) q \<and> \<not> prefix (D @ [t, p]) q"
  shows "nodes fs' q = nodes fs q"
  using assms
proof (induction tps arbitrary: fs)
  case Nil
  then show ?case by simp
next
  case (Cons r rs)
  obtain t p where r: "r = (t, p)" by (cases r) auto
  obtain fs1 y where row: "row_plain D t p fs = (fs1, y)"
    by (cases "row_plain D t p fs") auto
  have f: "nodes fs1 q = nodes fs q"
    using row_frame [OF row] Cons.prems(2) r by auto
  show ?case
  proof (cases y)
    case (Some e)
    then show ?thesis using Cons.prems(1) r row f by simp
  next
    case None
    then have "run_plain D rs fs1 = (fs', x)" using Cons.prems(1) r row by simp
    then show ?thesis using Cons.IH [of fs1] Cons.prems(2) f by simp
  qed
qed

lemma row_moves:
  assumes "row_plain D t p fs = (fs1, None)" "nodes fs (D @ [p]) = Some e"
    "nodes fs (D @ [t, p]) \<noteq> Some Dir"
  shows "nodes fs1 (D @ [t, p]) = Some e \<and> nodes fs1 (D @ [p]) = None"
proof -
  let ?g = "ensured D t fs"
  obtain m where m: "decide D t p ?g = Inr m" and fs1: "fs1 = act D p m ?g"
    using assms(1) by (auto simp: row_plain_decide split: sum.splits)
  have gp: "nodes ?g (D @ [p]) \<noteq> None" using assms(2) by (simp add: nodes_ensured)
  then obtain d where d: "m = Some d"
    using m by (cases m) (auto simp: decide_def split: option.splits if_splits node.splits)
  then have tp: "t \<noteq> p" using decide_lands [OF m] by (simp add: lands_def)
  have g2: "nodes ?g (D @ [t, p]) \<noteq> Some Dir" using assms(3) by (simp add: nodes_ensured)
  have "d = D @ [t, p]"
    using m d g2 by (auto simp: decide_def split: option.splits if_splits node.splits)
  then have "fs1 = renamed ?g (D @ [p]) (D @ [t, p])" using fs1 d by (simp add: act_def)
  then show ?thesis
    using tp assms(2) by (simp add: renamed_def relocate_def nodes_ensured)
qed

lemma run_moves:
  assumes "distinct (map snd tps)" "apart (set tps)"
    "\<forall>(t, p) \<in> set tps. nodes fs (D @ [t, p]) \<noteq> Some Dir"
    "run_plain D tps fs = (fs', None)" "(t, p) \<in> set tps" "nodes fs (D @ [p]) = Some e"
  shows "nodes fs' (D @ [t, p]) = Some e \<and> nodes fs' (D @ [p]) = None"
  using assms
proof (induction tps arbitrary: fs)
  case Nil
  then show ?case by simp
next
  case (Cons r rs)
  obtain t0 p0 where r: "r = (t0, p0)" by (cases r) auto
  obtain fs1 where row: "row_plain D t0 p0 fs = (fs1, None)"
    and rest: "run_plain D rs fs1 = (fs', None)"
    using Cons.prems(4) r by (auto split: prod.splits option.splits)
  have ap: "apart (set rs)" by (rule apart_subset [OF _ Cons.prems(2)]) auto
  have sep: "t' \<noteq> p0 \<and> t0 \<noteq> p' \<and> p' \<noteq> p0" if "(t', p') \<in> set rs" for t' p'
    using that Cons.prems(1,2) r unfolding apart_def by (auto simp: image_iff)
  show ?case
  proof (cases "(t, p) \<in> set rs")
    case True
    have s: "t \<noteq> p0" "t0 \<noteq> p" "p \<noteq> p0" using sep [OF True] by auto
    have e1: "nodes fs1 (D @ [p]) = Some e"
      using row_frame [OF row, of "D @ [p]"] s Cons.prems(6) by simp
    have nd: "\<forall>(t', p') \<in> set rs. nodes fs1 (D @ [t', p']) \<noteq> Some Dir"
    proof (clarify)
      fix t' p'
      assume m: "(t', p') \<in> set rs" and c: "nodes fs1 (D @ [t', p']) = Some Dir"
      have "nodes fs1 (D @ [t', p']) = nodes fs (D @ [t', p'])"
        using row_frame [OF row, of "D @ [t', p']"] sep [OF m] by auto
      then show False using c Cons.prems(3) m by auto
    qed
    show ?thesis
      using Cons.IH [OF _ ap nd rest True e1] Cons.prems(1) by simp
  next
    case False
    then have eq: "t0 = t" "p0 = p" using Cons.prems(5) r by auto
    have mv: "nodes fs1 (D @ [t, p]) = Some e \<and> nodes fs1 (D @ [p]) = None"
      using row_moves [OF row [unfolded eq] Cons.prems(6)] Cons.prems(3) r eq by auto
    have fr: "\<forall>(t', p') \<in> set rs. q \<noteq> D @ [t'] \<and> \<not> prefix (D @ [p']) q \<and>
        \<not> prefix (D @ [t', p']) q" if "q = D @ [t, p] \<or> q = D @ [p]" for q
    proof (clarify)
      fix t' p'
      assume m: "(t', p') \<in> set rs"
      have "t' \<noteq> p" "t \<noteq> p'" "p' \<noteq> p" using sep [OF m] eq by auto
      then show "q \<noteq> D @ [t'] \<and> \<not> prefix (D @ [p']) q \<and> \<not> prefix (D @ [t', p']) q"
        using that by auto
    qed
    have "nodes fs' (D @ [t, p]) = nodes fs1 (D @ [t, p])"
      by (rule run_frame [OF rest fr]) simp
    moreover have "nodes fs' (D @ [p]) = nodes fs1 (D @ [p])"
      by (rule run_frame [OF rest fr]) simp
    ultimately show ?thesis using mv by simp
  qed
qed

section \<open>Running twice\<close>

text \<open>
  C7, as stated, fails: when a photo value names a team directory, the first run moves
  that directory away, the second run creates it anew and moves the new directory into
  the one that the first run placed. With the rows \<^verbatim>\<open>T, a.jpg\<close> and \<^verbatim>\<open>U, T\<close> the first run ends
  without an exception and leaves nothing at \<^verbatim>\<open>/photos/U/T/T\<close>; after the second run a
  directory is there.
\<close>

theorem second_run_changes_state:
  "organize_photos_by_team (sample_table [sample_row ''T'' ''a.jpg'', sample_row ''U'' ''T''])
     ''teams.csv'' ''/photos'' ''Team'' ''Photo'' sample_fs =
     (renamed (ensured [''photos''] ''U''
        (renamed (ensured [''photos''] ''T'' sample_fs) [''photos'', ''a.jpg'']
           [''photos'', ''T'', ''a.jpg'']))
        [''photos'', ''T''] [''photos'', ''U'', ''T''], None) \<and>
   nodes (renamed (ensured [''photos''] ''U''
        (renamed (ensured [''photos''] ''T'' sample_fs) [''photos'', ''a.jpg'']
           [''photos'', ''T'', ''a.jpg'']))
        [''photos'', ''T''] [''photos'', ''U'', ''T''])
     [''photos'', ''U'', ''T'', ''T''] = None \<and>
   nodes (fst (organize_photos_by_team
        (sample_table [sample_row ''T'' ''a.jpg'', sample_row ''U'' ''T''])
        ''teams.csv'' ''/photos'' ''Team'' ''Photo''
        (renamed (ensured [''photos''] ''U''
          (renamed (ensured [''photos''] ''T'' sample_fs) [''photos'', ''a.jpg'']
             [''photos'', ''T'', ''a.jpg'']))
          [''photos'', ''T''] [''photos'', ''U'', ''T''])))
     [''photos'', ''U'', ''T'', ''T''] = Some Dir"
proof -
  let ?F = "renamed (ensured [''photos''] ''U''
        (renamed (ensured [''photos''] ''T'' sample_fs) [''photos'', ''a.jpg'']
           [''photos'', ''T'', ''a.jpg'']))
        [''photos'', ''T''] [''photos'', ''U'', ''T'']"
  have a: "organize_rows ''/photos'' ''Team'' ''Photo'' [''Team'', ''Photo'']
      [sample_row ''T'' ''a.jpg'', sample_row ''U'' ''T''] sample_fs = (?F, None)"
    by (subst organize_rows_plain [OF dir_at_sample sample_columns])
      (simp_all add: name_simps sample_simps plain_simps)
  have d: "dir_at ?F ''/photos'' [''photos'']"
    by (intro dir_at_renamed dir_at_ensured dir_at_sample) simp_all
  have b: "nodes (fst (organize_rows ''/photos'' ''Team'' ''Photo'' [''Team'', ''Photo'']
      [sample_row ''T'' ''a.jpg'', sample_row ''U'' ''T''] ?F))
        [''photos'', ''U'', ''T'', ''T''] = Some Dir"
    by (subst organize_rows_plain [OF d sample_columns])
      (simp_all add: name_simps sample_simps plain_simps)
  have c: "nodes ?F [''photos'', ''U'', ''T'', ''T''] = None"
    by (simp add: sample_simps plain_simps)
  show ?thesis
    using a b c
    by (simp add: organize_photos_by_team_def sample_table_def del: organize_rows.simps)
qed

text \<open>
  C7, amended. For plain team and photo names, below an existing source directory, and
  when no team name is also a photo name, a second run on the state that the first run
  left ends as the first run did, with the same exception if there was one, and leaves
  that state unchanged.
\<close>

theorem second_run:
  assumes "dir_at fs image_directory D" and "read_csv csv_path = Inr df"
    and "team_col \<in> set (columns df)" and "photo_col \<in> set (columns df)"
    and "\<forall>r \<in> set (rows df). plain (team_of team_col r) \<and> plain (photo_of photo_col r)"
    and "set (map (team_of team_col) (rows df)) \<inter> set (map (photo_of photo_col) (rows df)) = {}"
  shows "organize_photos_by_team read_csv csv_path image_directory team_col photo_col
           (fst (organize_photos_by_team read_csv csv_path image_directory team_col photo_col fs)) =
         organize_photos_by_team read_csv csv_path image_directory team_col photo_col fs"
proof -
  let ?tps = "map (names team_col photo_col) (rows df)"
  obtain fs' x where run: "run_plain D ?tps fs = (fs', x)"
    by (cases "run_plain D ?tps fs") auto
  have first: "organize_photos_by_team read_csv csv_path image_directory team_col photo_col fs =
      (fs', x)"
    using organize_rows_plain [OF assms(1,3,4,5)] assms(2) run
    by (simp add: organize_photos_by_team_def)
  have d': "dir_at fs' image_directory D"
    using dir_at_run [OF assms(1), of ?tps] run by simp
  have "run_plain D ?tps fs' = (fs', x)"
    using run_again [of "{}" ?tps D fs fs' x] apart_names [OF assms(6)] run by simp
  then have "organize_photos_by_team read_csv csv_path image_directory team_col photo_col fs' =
      (fs', x)"
    using organize_rows_plain [OF d' assms(3,4,5)] assms(2)
    by (simp add: organize_photos_by_team_def)
  then show ?thesis using first by simp
qed

theorem second_run_witness:
  "organize_photos_by_team
       (sample_table [sample_row ''Red'' ''a.jpg'', sample_row ''Blue'' ''b.jpg''])
       ''teams.csv'' ''/photos'' ''Team'' ''Photo''
       (renamed (ensured [''photos''] ''Blue''
          (renamed (ensured [''photos''] ''Red'' sample_fs) [''photos'', ''a.jpg'']
             [''photos'', ''Red'', ''a.jpg'']))
          [''photos'', ''b.jpg''] [''photos'', ''Blue'', ''b.jpg'']) =
   (renamed (ensured [''photos''] ''Blue''
      (renamed (ensured [''photos''] ''Red'' sample_fs) [''photos'', ''a.jpg'']
         [''photos'', ''Red'', ''a.jpg'']))
      [''photos'', ''b.jpg''] [''photos'', ''Blue'', ''b.jpg''], None)"
proof -
  let ?F = "renamed (ensured [''photos''] ''Blue''
      (renamed (ensured [''photos''] ''Red'' sample_fs) [''photos'', ''a.jpg'']
         [''photos'', ''Red'', ''a.jpg'']))
      [''photos'', ''b.jpg''] [''photos'', ''Blue'', ''b.jpg'']"
  let ?rc = "sample_table [sample_row ''Red'' ''a.jpg'', sample_row ''Blue'' ''b.jpg'']"
  have a: "organize_rows ''/photos'' ''Team'' ''Photo'' [''Team'', ''Photo'']
      [sample_row ''Red'' ''a.jpg'', sample_row ''Blue'' ''b.jpg''] sample_fs = (?F, None)"
    by (subst organize_rows_plain [OF dir_at_sample sample_columns])
      (simp_all add: name_simps sample_simps plain_simps)
  have run: "organize_photos_by_team ?rc ''teams.csv'' ''/photos'' ''Team'' ''Photo'' sample_fs =
      (?F, None)"
    by (simp add: organize_photos_by_team_def sample_table_def a del: organize_rows.simps)
  have "organize_photos_by_team ?rc ''teams.csv'' ''/photos'' ''Team'' ''Photo''
      (fst (organize_photos_by_team ?rc ''teams.csv'' ''/photos'' ''Team'' ''Photo'' sample_fs)) =
      organize_photos_by_team ?rc ''teams.csv'' ''/photos'' ''Team'' ''Photo'' sample_fs"
    by (rule second_run [OF dir_at_sample, where df = "\<lparr>columns = [''Team'', ''Photo''],
          rows = [sample_row ''Red'' ''a.jpg'', sample_row ''Blue'' ''b.jpg'']\<rparr>"])
      (simp_all add: sample_table_def name_simps sample_row_def)
  then show ?thesis unfolding run by simp
qed

section \<open>The moved photos\<close>

text \<open>
  A row whose trimmed team is empty addresses the source directory itself: the
  destination path is the source path, and the move changes nothing.
\<close>

lemma join_empty_join: "a \<noteq> [] \<Longrightarrow> path_join (path_join a []) p = path_join a p"
  by (auto simp: path_join_def)

lemma stat_join_empty:
  assumes "dir_at fs a D" "a \<noteq> []"
  shows "stat fs (path_join a []) = Inr (D, Dir)"
proof (cases "last a = CHR ''/''")
  case True
  then have "path_join a [] = a" by (simp add: path_join_def)
  then show ?thesis using stat_same_names [OF assms(1), of a] assms by (simp add: dir_at_def)
next
  case False
  then have j: "path_join a [] = a @ ''/''" using assms(2) by (simp add: path_join_def)
  have "stat fs (a @ ''/'') = Inr (D, Dir)"
    using assms
    by (intro stat_same_names [OF assms(1)])
      (auto simp: dir_at_def isabs_def split_sep_snoc_sep names_of_def)
  then show ?thesis by (simp add: j)
qed

lemma move_photo_same:
  assumes "dir_at fs a D" "plain p"
  shows "move_photo fs (path_join a p) (path_join a p) = (fs, None)"
proof (cases "nodes fs (D @ [p])")
  case None
  then show ?thesis by (simp add: move_photo_def exists1 [OF assms])
next
  case (Some e)
  have np: "\<not> special p" using assms(2) by (simp add: special_def plain_def)
  have r: "os_rename fs (path_join a p) (path_join a p) = (fs, None)"
    using Some np src_components [OF assms(2), of a]
    by (simp add: os_rename_def stat1 [OF assms] locate1 [OF assms])
  show ?thesis
    using Some r
    by (simp add: move_photo_def exists1 [OF assms] shutil_move_def samefile_def
        stat1 [OF assms] move_to_def)
qed

lemma organize_row_empty_team:
  assumes "dir_at fs a D" "a \<noteq> []" "tc \<in> set cols" "pc \<in> set cols"
    "team_of tc row = []" "plain (photo_of pc row)"
  shows "organize_row a tc pc cols row fs = (fs, None)"
proof -
  have e: "ensure_directory fs (path_join a []) = (fs, None)"
    by (simp add: ensure_directory_def exists_def stat_join_empty [OF assms(1,2)])
  show ?thesis
    unfolding organize_row_def
    using assms(3,4,5) e move_photo_same [OF assms(1,6)] join_empty_join [OF assms(2)]
    by (simp add: getitem_def team_of_def photo_of_def Let_def)
qed

text \<open>
  C1, as stated, fails: when two rows name the same photo, the first row moves it and the
  second row finds nothing at the source path. With the rows \<^verbatim>\<open>Red, a.jpg\<close> and
  \<^verbatim>\<open>Blue, a.jpg\<close> the file \<^verbatim>\<open>a.jpg\<close> existed before the run, the run ends without an
  exception, and nothing is at \<^verbatim>\<open>/photos/Blue/a.jpg\<close>.
\<close>

theorem repeated_photo_is_left_behind:
  "nodes sample_fs [''photos'', ''a.jpg''] = Some (File ''A'') \<and>
   organize_photos_by_team
       (sample_table [sample_row ''Red'' ''a.jpg'', sample_row ''Blue'' ''a.jpg''])
       ''teams.csv'' ''/photos'' ''Team'' ''Photo'' sample_fs =
     (ensured [''photos''] ''Blue''
        (renamed (ensured [''photos''] ''Red'' sample_fs) [''photos'', ''a.jpg'']
           [''photos'', ''Red'', ''a.jpg'']), None) \<and>
   nodes (ensured [''photos''] ''Blue''
        (renamed (ensured [''photos''] ''Red'' sample_fs) [''photos'', ''a.jpg'']
           [''photos'', ''Red'', ''a.jpg''])) [''photos'', ''Blue'', ''a.jpg''] = None"
proof -
  have a: "organize_rows ''/photos'' ''Team'' ''Photo'' [''Team'', ''Photo'']
      [sample_row ''Red'' ''a.jpg'', sample_row ''Blue'' ''a.jpg''] sample_fs =
     (ensured [''photos''] ''Blue''
        (renamed (ensured [''photos''] ''Red'' sample_fs) [''photos'', ''a.jpg'']
           [''photos'', ''Red'', ''a.jpg'']), None)"
    by (subst organize_rows_plain [OF dir_at_sample sample_columns])
      (simp_all add: name_simps sample_simps plain_simps)
  show ?thesis
    using a
    by (simp add: organize_photos_by_team_def sample_table_def sample_fs_def plain_simps
        del: organize_rows.simps)
qed

text \<open>
  C1, amended. Below an existing source directory, when the rows have plain team and photo
  names, pairwise distinct photo names, no team name that is also a photo name, and no
  directory at the destination path of a row before the run: for every row whose photo
  path held an entry before the run, after a run without exception that entry is at
  \<^verbatim>\<open><dir>/<team>/<photo>\<close> and nothing is at \<^verbatim>\<open><dir>/<photo>\<close>. A row whose trimmed team is empty,
  with a plain photo name and a source directory that is not the empty text, ends without
  an exception and changes nothing.
\<close>

theorem photos_are_moved:
  assumes "dir_at fs image_directory D" and "read_csv csv_path = Inr df"
    and "team_col \<in> set (columns df)" and "photo_col \<in> set (columns df)"
  shows "((\<forall>r \<in> set (rows df). plain (team_of team_col r) \<and> plain (photo_of photo_col r) \<and>
             nodes fs (D @ [team_of team_col r, photo_of photo_col r]) \<noteq> Some Dir) \<and>
          distinct (map (photo_of photo_col) (rows df)) \<and>
          set (map (team_of team_col) (rows df)) \<inter> set (map (photo_of photo_col) (rows df)) = {} \<and>
          organize_photos_by_team read_csv csv_path image_directory team_col photo_col fs =
            (fs', None) \<and>
          row \<in> set (rows df) \<and> nodes fs (D @ [photo_of photo_col row]) = Some e \<longrightarrow>
          nodes fs' (D @ [team_of team_col row, photo_of photo_col row]) = Some e \<and>
          nodes fs' (D @ [photo_of photo_col row]) = None) \<and>
         (image_directory \<noteq> [] \<and> team_of team_col row = [] \<and> plain (photo_of photo_col row) \<longrightarrow>
          organize_row image_directory team_col photo_col (columns df) row fs = (fs, None))"
proof (rule conjI; rule impI)
  assume "image_directory \<noteq> [] \<and> team_of team_col row = [] \<and> plain (photo_of photo_col row)"
  then show "organize_row image_directory team_col photo_col (columns df) row fs = (fs, None)"
    using organize_row_empty_team [OF assms(1) _ assms(3,4)] by simp
next
  let ?tps = "map (names team_col photo_col) (rows df)"
  assume h: "(\<forall>r \<in> set (rows df). plain (team_of team_col r) \<and> plain (photo_of photo_col r) \<and>
             nodes fs (D @ [team_of team_col r, photo_of photo_col r]) \<noteq> Some Dir) \<and>
          distinct (map (photo_of photo_col) (rows df)) \<and>
          set (map (team_of team_col) (rows df)) \<inter> set (map (photo_of photo_col) (rows df)) = {} \<and>
          organize_photos_by_team read_csv csv_path image_directory team_col photo_col fs =
            (fs', None) \<and>
          row \<in> set (rows df) \<and> nodes fs (D @ [photo_of photo_col row]) = Some e"
  then have pl: "\<forall>r \<in> set (rows df). plain (team_of team_col r) \<and> plain (photo_of photo_col r)"
    by simp
  have run: "run_plain D ?tps fs = (fs', None)"
    using organize_rows_plain [OF assms(1,3,4) pl] assms(2) h
    by (simp add: organize_photos_by_team_def)
  have dp: "distinct (map (photo_of photo_col) (rows df))" using h by simp
  have di: "distinct (map snd ?tps)" by (unfold snd_names, rule dp)
  have dj: "set (map (team_of team_col) (rows df)) \<inter> set (map (photo_of photo_col) (rows df)) = {}"
    using h by simp
  have ap: "apart (set ?tps)" by (rule apart_names [OF dj])
  have nd: "\<forall>(t, p) \<in> set ?tps. nodes fs (D @ [t, p]) \<noteq> Some Dir"
    using h by (auto simp: names_def)
  have mem: "(team_of team_col row, photo_of photo_col row) \<in> set ?tps"
    using h by (auto simp: names_def)
  have src: "nodes fs (D @ [photo_of photo_col row]) = Some e" using h by simp
  show "nodes fs' (D @ [team_of team_col row, photo_of photo_col row]) = Some e \<and>
          nodes fs' (D @ [photo_of photo_col row]) = None"
    by (rule run_moves [OF di ap nd run mem src])
qed

theorem photos_are_moved_witness:
  "(nodes (renamed (ensured [''photos''] ''Blue''
        (renamed (ensured [''photos''] ''Red'' sample_fs) [''photos'', ''a.jpg'']
           [''photos'', ''Red'', ''a.jpg'']))
        [''photos'', ''b.jpg''] [''photos'', ''Blue'', ''b.jpg''])
      [''photos'', ''Red'', ''a.jpg''] = Some (File ''A'') \<and>
    nodes (renamed (ensured [''photos''] ''Blue''
        (renamed (ensured [''photos''] ''Red'' sample_fs) [''photos'', ''a.jpg'']
           [''photos'', ''Red'', ''a.jpg'']))
        [''photos'', ''b.jpg''] [''photos'', ''Blue'', ''b.jpg''])
      [''photos'', ''a.jpg''] = None) \<and>
   organize_row ''/photos'' ''Team'' ''Photo'' [''Team'', ''Photo'']
      (sample_row '''' ''a.jpg'') sample_fs = (sample_fs, None)"
proof -
  let ?F = "renamed (ensured [''photos''] ''Blue''
      (renamed (ensured [''photos''] ''Red'' sample_fs) [''photos'', ''a.jpg'']
         [''photos'', ''Red'', ''a.jpg'']))
      [''photos'', ''b.jpg''] [''photos'', ''Blue'', ''b.jpg'']"
  let ?rs = "[sample_row ''Red'' ''a.jpg'', sample_row ''Blue'' ''b.jpg'']"
  let ?df = "\<lparr>columns = [''Team'', ''Photo''], rows = ?rs\<rparr>"
  have a: "organize_rows ''/photos'' ''Team'' ''Photo'' [''Team'', ''Photo''] ?rs sample_fs =
      (?F, None)"
    by (subst organize_rows_plain [OF dir_at_sample sample_columns])
      (simp_all add: name_simps sample_simps plain_simps)
  have run: "organize_photos_by_team (sample_table ?rs) ''teams.csv'' ''/photos'' ''Team'' ''Photo''
      sample_fs = (?F, None)"
    by (simp add: organize_photos_by_team_def sample_table_def a del: organize_rows.simps)
  have moved: "nodes ?F [''photos'', ''Red'', ''a.jpg''] = Some (File ''A'') \<and>
      nodes ?F [''photos'', ''a.jpg''] = None"
    using photos_are_moved [OF dir_at_sample, where df = ?df and read_csv = "sample_table ?rs"
        and csv_path = "''teams.csv''" and team_col = "''Team''" and photo_col = "''Photo''"
        and row = "sample_row ''Red'' ''a.jpg''" and fs' = ?F and e = "File ''A''"] run
    by (simp add: sample_table_def name_simps sample_row_def sample_fs_def
        del: organize_rows.simps)
  have stays: "organize_row ''/photos'' ''Team'' ''Photo'' [''Team'', ''Photo'']
      (sample_row '''' ''a.jpg'') sample_fs = (sample_fs, None)"
    using photos_are_moved [OF dir_at_sample, where df = ?df and read_csv = "sample_table ?rs"
        and csv_path = "''teams.csv''" and team_col = "''Team''" and photo_col = "''Photo''"
        and row = "sample_row '''' ''a.jpg''"]
    by (simp add: sample_table_def name_simps sample_row_def)
  show ?thesis using moved stays by (rule conjI)
qed

section \<open>Creating the team directory\<close>








end
